theory Spec2Isabelle
  imports Main "HOL-Library.Char_ord" "HOL-Library.List_Lexorder"
begin

section \<open>The store behind \<open>db_loader.py\<close>\<close>

text \<open>
  \<open>db_loader.py\<close> talks to PostgreSQL through seven SQL statements. The store is
  modelled as far as those statements read or write it:
  \<^item> table \<open>documents (id SERIAL PRIMARY KEY, filename TEXT UNIQUE, content TEXT)\<close>
    with the sequence \<open>documents_id_seq\<close> that \<open>SERIAL\<close> creates and owns;
  \<^item> table \<open>analyses\<close> with its own sequence, and the index
    \<open>idx_analyses_document_id\<close>;
  \<^item> the session-level advisory locks, as pairs of key and holding session.
  A table that does not exist is \<open>None\<close>.
\<close>

type_synonym doc_row = "int \<times> string \<times> string"

definition row_id :: "doc_row \<Rightarrow> int" where
  "row_id r = fst r"

definition row_filename :: "doc_row \<Rightarrow> string" where
  "row_filename r = fst (snd r)"

definition row_content :: "doc_row \<Rightarrow> string" where
  "row_content r = snd (snd r)"

record pg_sequence =
  last_value :: int
  is_called :: bool

text \<open>
  \<open>SERIAL\<close> is \<open>integer NOT NULL DEFAULT nextval(...)\<close> over a sequence
  \<open>AS integer\<close> with the defaults of an ascending sequence: \<open>MINVALUE 1\<close>,
  \<open>MAXVALUE 2147483647\<close>, \<open>START 1\<close>, not yet called.
\<close>

definition seq_min :: int where
  "seq_min = 1"

definition seq_max :: int where
  "seq_max = 2147483647"

definition new_sequence :: pg_sequence where
  "new_sequence = \<lparr>last_value = 1, is_called = False\<rparr>"

record documents_table =
  doc_rows :: "doc_row list"
  doc_id_seq :: pg_sequence

record analysis_row =
  analysis_id :: int
  document_id :: int
  jsonb_columns :: "string list"

record analyses_table =
  an_rows :: "analysis_row list"
  an_id_seq :: pg_sequence

record store =
  documents :: "documents_table option"
  analyses :: "analyses_table option"
  idx_analyses_document_id :: bool
  advisory_locks :: "(int \<times> nat) list"

datatype error =
    RuntimeError
  | OSError
  | DBAPIError
  | UndefinedTable
  | UniqueViolation
  | NumericValueOutOfRange
  | SequenceLimitExceeded
  | CharacterNotInRepertoire
  | DatatypeMismatch

datatype sql_value = SqlNull | SqlBool bool | SqlInt int

datatype stmt =
    TryAdvisoryLock int
  | CreateTableDocuments
  | CreateTableAnalyses
  | CreateIndexAnalyses
  | UpsertDocument string string
  | SelectMaxId
  | SetvalDocuments sql_value

subsection \<open>Sequences\<close>

text \<open>
  \<open>nextval\<close> returns \<open>last_value\<close> itself when the sequence was never called, and
  the next value otherwise; it fails when that would pass \<open>MAXVALUE\<close>
  (\<open>nextval: reached maximum value of sequence\<close>).
  \<open>setval(seq, v, true)\<close> checks its value against the bounds of the sequence
  before anything else, whatever its third argument, and fails outside them
  (\<open>setval: value 0 is out of bounds for sequence "documents_id_seq"
  (1..2147483647)\<close>); inside them the sequence is left at \<open>v\<close>, called.
\<close>

definition nextval :: "pg_sequence \<Rightarrow> error + (int \<times> pg_sequence)" where
  "nextval q =
     (if \<not> is_called q then Inr (last_value q, q\<lparr>is_called := True\<rparr>)
      else if last_value q + 1 > seq_max then Inl SequenceLimitExceeded
      else Inr (last_value q + 1, q\<lparr>last_value := last_value q + 1\<rparr>))"

definition setval :: "int \<Rightarrow> pg_sequence \<Rightarrow> error + pg_sequence" where
  "setval v q =
     (if v < seq_min \<or> v > seq_max then Inl NumericValueOutOfRange
      else Inr \<lparr>last_value = v, is_called = True\<rparr>)"

subsection \<open>The statements\<close>

text \<open>
  \<open>SELECT pg_try_advisory_lock(:k)\<close>: never waits. The lock is granted when no other
  session holds the key (a session may take a key it already holds), and the
  answer is one row with one boolean.
\<close>

definition try_advisory_lock :: "nat \<Rightarrow> int \<Rightarrow> (int \<times> nat) list \<Rightarrow> bool \<times> (int \<times> nat) list" where
  "try_advisory_lock sid k locks =
     (case map_of locks k of
        None \<Rightarrow> (True, (k, sid) # locks)
      | Some holder \<Rightarrow> (if holder = sid then (True, locks) else (False, locks)))"

text \<open>
  \<open>INSERT INTO documents (filename, content) VALUES (:fn, :content)
  ON CONFLICT (filename) DO UPDATE SET content = EXCLUDED.content\<close>:
  a text value holding the character NUL is refused; the default of \<open>id\<close> is
  computed by \<open>nextval\<close> before the conflict check, so the sequence advances on the
  update path too; a row with the same filename has its content overwritten and
  keeps its id; otherwise the new row is inserted, unless its id is taken.
\<close>

definition upsert_document :: "string \<Rightarrow> string \<Rightarrow> documents_table \<Rightarrow> (error + unit) \<times> documents_table" where
  "upsert_document fn content t =
     (if CHR 0x00 \<in> set fn \<or> CHR 0x00 \<in> set content then (Inl CharacterNotInRepertoire, t)
      else case nextval (doc_id_seq t) of
        Inl e \<Rightarrow> (Inl e, t)
      | Inr (v, q) \<Rightarrow>
          (if fn \<in> set (map row_filename (doc_rows t))
           then (Inr (), t\<lparr>doc_rows := map (\<lambda>r. if row_filename r = fn then (row_id r, fn, content) else r) (doc_rows t),
                          doc_id_seq := q\<rparr>)
           else if v \<in> set (map row_id (doc_rows t))
           then (Inl UniqueViolation, t\<lparr>doc_id_seq := q\<rparr>)
           else (Inr (), t\<lparr>doc_rows := doc_rows t @ [(v, fn, content)], doc_id_seq := q\<rparr>)))"

text \<open>\<open>SELECT COALESCE(MAX(id), 0) FROM documents\<close>.\<close>

definition select_max_id :: "documents_table \<Rightarrow> int" where
  "select_max_id t = (if doc_rows t = [] then 0 else Max (set (map row_id (doc_rows t))))"

text \<open>
  One statement on the store, in session \<open>sid\<close>. The result is what
  \<open>fetchone()\<close> gives: the first row, or \<open>None\<close> for a statement without rows.
  The store is returned in the error case as well: a failed insert has already
  advanced the sequence.
\<close>

definition pg_exec :: "nat \<Rightarrow> stmt \<Rightarrow> store \<Rightarrow> (error + sql_value list option) \<times> store" where
  "pg_exec sid q s =
     (case q of
        TryAdvisoryLock k \<Rightarrow>
          (case try_advisory_lock sid k (advisory_locks s) of
             (b, locks) \<Rightarrow> (Inr (Some [SqlBool b]), s\<lparr>advisory_locks := locks\<rparr>))
      | CreateTableDocuments \<Rightarrow>
          (case documents s of
             None \<Rightarrow> (Inr None, s\<lparr>documents := Some \<lparr>doc_rows = [], doc_id_seq = new_sequence\<rparr>\<rparr>)
           | Some _ \<Rightarrow> (Inr None, s))
      | CreateTableAnalyses \<Rightarrow>
          (case analyses s of
             Some _ \<Rightarrow> (Inr None, s)
           | None \<Rightarrow>
               (case documents s of
                  None \<Rightarrow> (Inl UndefinedTable, s)
                | Some _ \<Rightarrow> (Inr None, s\<lparr>analyses := Some \<lparr>an_rows = [], an_id_seq = new_sequence\<rparr>\<rparr>)))
      | CreateIndexAnalyses \<Rightarrow>
          (if idx_analyses_document_id s then (Inr None, s)
           else case analyses s of
                  None \<Rightarrow> (Inl UndefinedTable, s)
                | Some _ \<Rightarrow> (Inr None, s\<lparr>idx_analyses_document_id := True\<rparr>))
      | UpsertDocument fn content \<Rightarrow>
          (case documents s of
             None \<Rightarrow> (Inl UndefinedTable, s)
           | Some t \<Rightarrow>
               (case upsert_document fn content t of
                  (r, t') \<Rightarrow> (map_sum id (\<lambda>_. None) r, s\<lparr>documents := Some t'\<rparr>)))
      | SelectMaxId \<Rightarrow>
          (case documents s of
             None \<Rightarrow> (Inl UndefinedTable, s)
           | Some t \<Rightarrow> (Inr (Some [SqlInt (select_max_id t)]), s))
      | SetvalDocuments val \<Rightarrow>
          (case documents s of
             None \<Rightarrow> (Inl UndefinedTable, s)
           | Some t \<Rightarrow>
               (case val of
                  SqlInt v \<Rightarrow>
                    (case setval v (doc_id_seq t) of
                       Inl e \<Rightarrow> (Inl e, s)
                     | Inr q \<Rightarrow> (Inr (Some [SqlInt v]), s\<lparr>documents := Some (t\<lparr>doc_id_seq := q\<rparr>)\<rparr>))
                | _ \<Rightarrow> (Inl DatatypeMismatch, s))))"

text \<open>
  Rolling a transaction back restores tables, rows and indexes. It does not
  restore what PostgreSQL keeps outside transactions: the value of a sequence
  that existed before the transaction (what \<open>nextval\<close> and \<open>setval\<close> did is never
  undone), and session-level advisory locks (held until released or until the
  session ends). A table created in the transaction disappears with its
  sequence.
\<close>

definition rollback :: "store \<Rightarrow> store \<Rightarrow> store" where
  "rollback s0 s =
     s0\<lparr>documents :=
          (case (documents s0, documents s) of
             (Some t0, Some t) \<Rightarrow> Some (t0\<lparr>doc_id_seq := doc_id_seq t\<rparr>)
           | _ \<Rightarrow> documents s0),
        analyses :=
          (case (analyses s0, analyses s) of
             (Some a0, Some a) \<Rightarrow> Some (a0\<lparr>an_id_seq := an_id_seq a\<rparr>)
           | _ \<Rightarrow> analyses s0),
        advisory_locks := advisory_locks s\<rparr>"

section \<open>The surroundings of one call\<close>

text \<open>
  Reading a file of the corpus either gives its text, or raises
  \<open>UnicodeDecodeError\<close>, or raises some \<open>OSError\<close> (unreadable, a directory named
  \<open>x.txt\<close>, an I/O failure). \<open>TEXT_DIR\<close> is missing, or something that is not a
  directory, or a directory with named entries.
\<close>

datatype read_result = Content string | RaisesUnicodeDecodeError | RaisesOSError

datatype fs_node = Missing | NotADirectory | Directory "(string \<times> read_result) list"

datatype AsyncEngine = AsyncEngine string

datatype log_msg =
    AnotherWorkerInitialized
  | TextDirMissing
  | SkippingNonUtf8 string
  | DatabaseInitialized

datatype event =
    DbBegin
  | DbExecute stmt
  | DbCommit
  | DbRollback
  | LogInfo log_msg
  | LogWarning log_msg

text \<open>
  \<open>db_fault = Some n\<close> makes the call number \<open>n\<close> of \<open>conn.execute\<close> (counted from
  0) fail in the driver, whatever the statement: this stands for the failures
  the store can produce on its own (connection loss, timeout, a conflicting
  change). Opening and committing the transaction are taken to succeed.
\<close>

record env =
  text_dir :: fs_node
  session_id :: nat
  db_fault :: "nat option"

record session_state =
  cur :: store
  calls :: nat
  trace :: "event list"

definition DB_INIT_ADVISORY_LOCK_KEY :: int where
  "DB_INIT_ADVISORY_LOCK_KEY = 1234567890"

definition set_engine :: "AsyncEngine \<Rightarrow> AsyncEngine option \<Rightarrow> AsyncEngine option" where
  "set_engine engine old = Some engine"

definition log_event :: "event \<Rightarrow> session_state \<Rightarrow> session_state" where
  "log_event ev st = st\<lparr>trace := trace st @ [ev]\<rparr>"

definition conn_execute :: "env \<Rightarrow> stmt \<Rightarrow> session_state \<Rightarrow> (error + sql_value list option) \<times> session_state" where
  "conn_execute e q st =
     (let st1 = st\<lparr>calls := calls st + 1, trace := trace st @ [DbExecute q]\<rparr>
      in if db_fault e = Some (calls st) then (Inl DBAPIError, st1)
         else case pg_exec (session_id e) q (cur st) of
                (r, s') \<Rightarrow> (r, st1\<lparr>cur := s'\<rparr>))"

section \<open>\<open>db_loader.py\<close>\<close>

text \<open>
  \<open>max_id = max_id_row[0] if max_id_row and max_id_row[0] is not None else 0\<close>
\<close>

definition max_id_of :: "sql_value list option \<Rightarrow> sql_value" where
  "max_id_of max_id_row =
     (case max_id_row of
        Some (v # _) \<Rightarrow> (if v \<noteq> SqlNull then v else SqlInt 0)
      | _ \<Rightarrow> SqlInt 0)"

definition set_documents_sequence :: "env \<Rightarrow> session_state \<Rightarrow> (error + unit) \<times> session_state" where
  "set_documents_sequence e st =
     (case conn_execute e SelectMaxId st of
        (Inl err, st1) \<Rightarrow> (Inl err, st1)
      | (Inr max_id_row, st1) \<Rightarrow>
          (case conn_execute e (SetvalDocuments (max_id_of max_id_row)) st1 of
             (Inl err, st2) \<Rightarrow> (Inl err, st2)
           | (Inr _, st2) \<Rightarrow> (Inr (), st2)))"

text \<open>
  \<open>locked = bool(locked_row[0]) if locked_row and locked_row[0] is not None else False\<close>
\<close>

fun truthy :: "sql_value \<Rightarrow> bool" where
  "truthy SqlNull = False"
| "truthy (SqlBool b) = b"
| "truthy (SqlInt n) = (n \<noteq> 0)"

definition locked_of :: "sql_value list option \<Rightarrow> bool" where
  "locked_of locked_row =
     (case locked_row of
        Some (v # _) \<Rightarrow> (if v \<noteq> SqlNull then truthy v else False)
      | _ \<Rightarrow> False)"

text \<open>\<open>TEXT_DIR.exists()\<close>, \<open>TEXT_DIR.is_dir()\<close>, \<open>sorted(TEXT_DIR.glob("*.txt"))\<close>.\<close>

definition path_exists :: "fs_node \<Rightarrow> bool" where
  "path_exists n = (n \<noteq> Missing)"

definition path_is_dir :: "fs_node \<Rightarrow> bool" where
  "path_is_dir n = (case n of Directory _ \<Rightarrow> True | _ \<Rightarrow> False)"

definition matches_txt :: "string \<Rightarrow> bool" where
  "matches_txt name = (4 \<le> length name \<and> drop (length name - 4) name = ''.txt'')"

definition glob_txt :: "fs_node \<Rightarrow> (string \<times> read_result) list" where
  "glob_txt n = (case n of Directory es \<Rightarrow> filter (\<lambda>f. matches_txt (fst f)) es | _ \<Rightarrow> [])"

definition sorted_files :: "fs_node \<Rightarrow> (string \<times> read_result) list" where
  "sorted_files n = sort_key fst (glob_txt n)"

text \<open>The loop over the files (lines 150 to 167).\<close>

fun load_files :: "env \<Rightarrow> (string \<times> read_result) list \<Rightarrow> session_state \<Rightarrow> (error + unit) \<times> session_state" where
  "load_files e [] st = (Inr (), st)"
| "load_files e (f # fs) st =
     (case snd f of
        RaisesUnicodeDecodeError \<Rightarrow>
          load_files e fs (log_event (LogWarning (SkippingNonUtf8 (fst f))) st)
      | RaisesOSError \<Rightarrow> (Inl OSError, st)
      | Content content \<Rightarrow>
          (case conn_execute e (UpsertDocument (fst f) content) st of
             (Inl err, st1) \<Rightarrow> (Inl err, st1)
           | (Inr _, st1) \<Rightarrow> load_files e fs st1))"

text \<open>The corpus step (lines 147 to 167).\<close>

definition load_corpus :: "env \<Rightarrow> session_state \<Rightarrow> (error + unit) \<times> session_state" where
  "load_corpus e st =
     (if \<not> path_exists (text_dir e) \<or> \<not> path_is_dir (text_dir e)
      then (Inr (), log_event (LogWarning TextDirMissing) st)
      else load_files e (sorted_files (text_dir e)) st)"

text \<open>
  The body of \<open>async with _engine.begin() as conn\<close> (lines 106 to 170). It ends by
  an exception, by the \<open>return\<close> of line 115, or by reaching its end.
\<close>

datatype body_exit = EarlyReturn | Completed

text \<open>The three \<open>CREATE ... IF NOT EXISTS\<close> statements (lines 117 to 144).\<close>

definition create_schema :: "env \<Rightarrow> session_state \<Rightarrow> (error + unit) \<times> session_state" where
  "create_schema e st1 =
     (case conn_execute e CreateTableDocuments st1 of
        (Inl err, st2) \<Rightarrow> (Inl err, st2)
      | (Inr _, st2) \<Rightarrow>
     (case conn_execute e CreateTableAnalyses st2 of
        (Inl err, st3) \<Rightarrow> (Inl err, st3)
      | (Inr _, st3) \<Rightarrow>
     (case conn_execute e CreateIndexAnalyses st3 of
        (Inl err, st4) \<Rightarrow> (Inl err, st4)
      | (Inr _, st4) \<Rightarrow> (Inr (), st4))))"

text \<open>What the holder of the lock does (lines 117 to 170).\<close>

definition initialize :: "env \<Rightarrow> session_state \<Rightarrow> (error + body_exit) \<times> session_state" where
  "initialize e st1 =
     (case create_schema e st1 of
        (Inl err, st4) \<Rightarrow> (Inl err, st4)
      | (Inr _, st4) \<Rightarrow>
     (case load_corpus e st4 of
        (Inl err, st5) \<Rightarrow> (Inl err, st5)
      | (Inr _, st5) \<Rightarrow>
     (case set_documents_sequence e st5 of
        (Inl err, st6) \<Rightarrow> (Inl err, st6)
      | (Inr _, st6) \<Rightarrow> (Inr Completed, st6))))"

definition transaction_body :: "env \<Rightarrow> session_state \<Rightarrow> (error + body_exit) \<times> session_state" where
  "transaction_body e st =
     (case conn_execute e (TryAdvisoryLock DB_INIT_ADVISORY_LOCK_KEY) st of
        (Inl err, st1) \<Rightarrow> (Inl err, st1)
      | (Inr locked_row, st1) \<Rightarrow>
          (if \<not> locked_of locked_row
           then (Inr EarlyReturn, log_event (LogInfo AnotherWorkerInitialized) st1)
           else initialize e st1))"

text \<open>
  \<open>load_txt_files_to_db\<close>: the committed store before the call goes in; the
  outcome, the committed store after the call and the trace of what was done
  come out. The function has no \<open>return\<close> with a value: where it returns, it
  returns \<open>None\<close>. \<open>engine.begin()\<close> commits when its body ends without an
  exception and rolls back when an exception leaves it, which it raises again.
\<close>

datatype py_value = PyNone | PyInt int

definition begin_transaction :: "store \<Rightarrow> session_state" where
  "begin_transaction s = \<lparr>cur = s, calls = 0, trace = [DbBegin]\<rparr>"

definition load_txt_files_to_db :: "env \<Rightarrow> AsyncEngine option \<Rightarrow> store \<Rightarrow> (error + py_value) \<times> store \<times> event list" where
  "load_txt_files_to_db e engine s =
     (case engine of
        None \<Rightarrow> (Inl RuntimeError, s, [])
      | Some _ \<Rightarrow>
          (case transaction_body e (begin_transaction s) of
             (Inl err, st) \<Rightarrow> (Inl err, rollback s (cur st), trace st @ [DbRollback])
           | (Inr EarlyReturn, st) \<Rightarrow> (Inr PyNone, cur st, trace st @ [DbCommit])
           | (Inr Completed, st) \<Rightarrow>
               (Inr PyNone, cur st, trace st @ [DbCommit, LogInfo DatabaseInitialized])))"

section \<open>Notions used in the statements\<close>

text \<open>
  The part of the store that a transaction owns: which tables exist, their
  rows, and the index. Sequence values and advisory locks are left out.
\<close>

definition tables_of :: "store \<Rightarrow> doc_row list option \<times> analysis_row list option \<times> bool" where
  "tables_of s =
     (map_option doc_rows (documents s), map_option an_rows (analyses s), idx_analyses_document_id s)"

fun is_db_event :: "event \<Rightarrow> bool" where
  "is_db_event (LogInfo _) = False"
| "is_db_event (LogWarning _) = False"
| "is_db_event _ = True"

fun is_transaction_mark :: "event \<Rightarrow> bool" where
  "is_transaction_mark DbBegin = True"
| "is_transaction_mark DbCommit = True"
| "is_transaction_mark DbRollback = True"
| "is_transaction_mark _ = False"

fun is_upsert :: "event \<Rightarrow> bool" where
  "is_upsert (DbExecute (UpsertDocument _ _)) = True"
| "is_upsert _ = False"

fun is_content :: "read_result \<Rightarrow> bool" where
  "is_content (Content _) = True"
| "is_content _ = False"

text \<open>\<open>extends st st'\<close>: \<open>st'\<close> has the trace of \<open>st\<close> and, after it, only statements and log records.\<close>

definition extends :: "session_state \<Rightarrow> session_state \<Rightarrow> bool" where
  "extends st st' = (\<exists>tr. trace st' = trace st @ tr \<and> filter is_transaction_mark tr = [])"

text \<open>What a statement depends on in the session: the store and the number of calls made.\<close>

definition core :: "session_state \<Rightarrow> store \<times> nat" where
  "core st = (cur st, calls st)"

text \<open>
  The value the generator hands out next, and the invariant of the id generator:
  that value lies above every stored id.
\<close>

definition next_value :: "pg_sequence \<Rightarrow> int" where
  "next_value q = (if is_called q then last_value q + 1 else last_value q)"

definition ids_below :: "documents_table \<Rightarrow> bool" where
  "ids_below t = list_all (\<lambda>r. row_id r < next_value (doc_id_seq t)) (doc_rows t)"

text \<open>
  A store on which \<open>n\<close> upserts cannot fail for want of ids: there is no
  \<open>documents\<close> table yet, or its generator is ahead of the stored ids and has
  \<open>n\<close> values left.
\<close>

definition healthy :: "store \<Rightarrow> nat \<Rightarrow> bool" where
  "healthy s n =
     (case documents s of
        None \<Rightarrow> int n \<le> seq_max
      | Some t \<Rightarrow> ids_below t \<and> next_value (doc_id_seq t) + int n \<le> seq_max + 1)"

definition nul_free :: "string \<Rightarrow> bool" where
  "nul_free x = (CHR 0x00 \<notin> set x)"

definition texts_nul_free :: "(string \<times> read_result) list \<Rightarrow> bool" where
  "texts_nul_free fs =
     list_all (\<lambda>f. case snd f of Content c \<Rightarrow> nul_free (fst f) \<and> nul_free c | _ \<Rightarrow> True) fs"

definition raises_oserror :: "(string \<times> read_result) list \<Rightarrow> bool" where
  "raises_oserror fs = list_ex (\<lambda>f. snd f = RaisesOSError) fs"

text \<open>
  The directory without the files that fail to decode; and two results of a
  step that agree: same outcome, same store, same number of calls made.
\<close>

definition without_undecodable :: "fs_node \<Rightarrow> fs_node" where
  "without_undecodable n =
     (case n of
        Directory es \<Rightarrow> Directory (filter (\<lambda>f. snd f \<noteq> RaisesUnicodeDecodeError) es)
      | _ \<Rightarrow> n)"

definition agree :: "'a \<times> session_state \<Rightarrow> 'a \<times> session_state \<Rightarrow> bool" where
  "agree x y = (fst x = fst y \<and> core (snd x) = core (snd y))"

text \<open>
  For the reload of a corpus: the rows of \<open>documents\<close>; a filename that is in
  the table with a given content; a list of files each of which, where it
  decoded, is in the table with its content; the rows whose filename is not
  among the files; and a generator with \<open>n\<close> values left.
\<close>

definition rows_of :: "store \<Rightarrow> doc_row list option" where
  "rows_of s = map_option doc_rows (documents s)"

definition has_content :: "string \<Rightarrow> string \<Rightarrow> doc_row list \<Rightarrow> bool" where
  "has_content n c rows =
     (n \<in> set (map row_filename rows)
      \<and> list_all (\<lambda>r. row_filename r = n \<longrightarrow> row_content r = c) rows)"

definition file_loaded :: "doc_row list option \<Rightarrow> string \<times> read_result \<Rightarrow> bool" where
  "file_loaded rows f =
     (case snd f of
        Content c \<Rightarrow> (case rows of None \<Rightarrow> False | Some rs \<Rightarrow> has_content (fst f) c rs)
      | _ \<Rightarrow> True)"

definition loaded_as :: "(string \<times> read_result) list \<Rightarrow> store \<Rightarrow> bool" where
  "loaded_as fs s = list_all (file_loaded (rows_of s)) fs"

definition other_rows :: "(string \<times> read_result) list \<Rightarrow> store \<Rightarrow> doc_row list option" where
  "other_rows fs s = map_option (filter (\<lambda>r. row_filename r \<notin> set (map fst fs))) (rows_of s)"

definition seq_room :: "store \<Rightarrow> nat \<Rightarrow> bool" where
  "seq_room s n =
     (case documents s of
        None \<Rightarrow> True
      | Some t \<Rightarrow> last_value (doc_id_seq t) + int n \<le> seq_max)"

text \<open>
  The statements a call has executed, read off its trace, and their replay in
  order from a given session state, stopping at the first one that fails.
  \<open>statements_ok\<close>: every statement in the trace of \<open>st\<close> succeeded when run in order
  from the start of the transaction on \<open>s\<close>, and led to the store and call count
  of \<open>st\<close>. \<open>statement_failed\<close>: a statement in the trace failed with \<open>err\<close>.
  \<open>replays\<close>: a step that returns has run only statements that succeeded; a step
  that raises, raises the error of the statement that failed, or \<open>OSError\<close> with
  every statement having succeeded.
\<close>

fun stmts_of :: "event list \<Rightarrow> stmt list" where
  "stmts_of [] = []"
| "stmts_of (DbExecute q # tr) = q # stmts_of tr"
| "stmts_of (ev # tr) = stmts_of tr"

fun run_statements :: "env \<Rightarrow> stmt list \<Rightarrow> session_state \<Rightarrow> (error + unit) \<times> session_state" where
  "run_statements e [] st = (Inr (), st)"
| "run_statements e (q # qs) st =
     (case conn_execute e q st of
        (Inl err, st1) \<Rightarrow> (Inl err, st1)
      | (Inr _, st1) \<Rightarrow> run_statements e qs st1)"

definition statements_ok :: "env \<Rightarrow> store \<Rightarrow> session_state \<Rightarrow> bool" where
  "statements_ok e s st =
     (\<exists>st'. run_statements e (stmts_of (trace st)) (begin_transaction s) = (Inr (), st')
            \<and> core st' = core st)"

definition statement_failed :: "env \<Rightarrow> store \<Rightarrow> session_state \<Rightarrow> error \<Rightarrow> bool" where
  "statement_failed e s st err =
     (fst (run_statements e (stmts_of (trace st)) (begin_transaction s)) = Inl err)"

definition replays :: "env \<Rightarrow> store \<Rightarrow> (error + 'a) \<times> session_state \<Rightarrow> bool" where
  "replays e s x =
     (case fst x of
        Inr _ \<Rightarrow> statements_ok e s (snd x)
      | Inl err \<Rightarrow> statement_failed e s (snd x) err \<or> (err = OSError \<and> statements_ok e s (snd x)))"

subsection \<open>Concrete inputs\<close>

definition fresh_store :: store where
  "fresh_store = \<lparr>documents = None, analyses = None, idx_analyses_document_id = False, advisory_locks = []\<rparr>"

definition env_of :: "fs_node \<Rightarrow> env" where
  "env_of d = \<lparr>text_dir = d, session_id = 1, db_fault = None\<rparr>"

definition some_engine :: AsyncEngine where
  "some_engine = AsyncEngine ''postgresql+asyncpg://user:pw@db/nlp''"

text \<open>A store on which another session holds the initialization lock.\<close>

definition store_locked_elsewhere :: store where
  "store_locked_elsewhere = fresh_store\<lparr>advisory_locks := [(1234567890, 2)]\<rparr>"

text \<open>
  A store after one successful bootstrap over a directory with \<open>a.txt\<close>; a store
  whose tables exist and are empty; a store whose three documents were inserted
  with the explicit ids 5, 12 and 3, the sequence never used.
\<close>

definition seeded_store :: store where
  "seeded_store =
     \<lparr>documents = Some \<lparr>doc_rows = [(1, ''a.txt'', ''A'')],
                          doc_id_seq = \<lparr>last_value = 1, is_called = True\<rparr>\<rparr>,
      analyses = Some \<lparr>an_rows = [], an_id_seq = new_sequence\<rparr>,
      idx_analyses_document_id = True,
      advisory_locks = []\<rparr>"

definition empty_tables_store :: store where
  "empty_tables_store =
     \<lparr>documents = Some \<lparr>doc_rows = [], doc_id_seq = new_sequence\<rparr>,
      analyses = Some \<lparr>an_rows = [], an_id_seq = new_sequence\<rparr>,
      idx_analyses_document_id = True,
      advisory_locks = []\<rparr>"

definition explicit_ids_store :: store where
  "explicit_ids_store =
     \<lparr>documents = Some \<lparr>doc_rows = [(5, ''e.txt'', ''five''), (12, ''l.txt'', ''twelve''), (3, ''c.txt'', ''three'')],
                          doc_id_seq = new_sequence\<rparr>,
      analyses = Some \<lparr>an_rows = [], an_id_seq = new_sequence\<rparr>,
      idx_analyses_document_id = True,
      advisory_locks = []\<rparr>"

definition dir_a :: fs_node where
  "dir_a = Directory [(''a.txt'', Content ''A'')]"

definition dir_b :: fs_node where
  "dir_b = Directory [(''b.txt'', Content ''B'')]"

definition dir_b_then_unreadable :: fs_node where
  "dir_b_then_unreadable = Directory [(''c.txt'', RaisesOSError), (''b.txt'', Content ''B'')]"

definition dir_bad_and_good :: fs_node where
  "dir_bad_and_good = Directory [(''bad.txt'', RaisesUnicodeDecodeError), (''good.txt'', Content ''hello'')]"

text \<open>
  A directory with \<open>a.txt\<close> and an unreadable \<open>c.txt\<close>, and surroundings in which the
  store fails the fifth statement of the call, the upsert of \<open>a.txt\<close>.
\<close>

definition dir_a_then_unreadable :: fs_node where
  "dir_a_then_unreadable = Directory [(''a.txt'', Content ''A''), (''c.txt'', RaisesOSError)]"

definition env_upsert_fails :: env where
  "env_upsert_fails = \<lparr>text_dir = dir_a_then_unreadable, session_id = 1, db_fault = Some 4\<rparr>"

section \<open>Evaluation\<close>

lemmas eval_defs = load_txt_files_to_db_def begin_transaction_def transaction_body_def initialize_def
  create_schema_def conn_execute_def pg_exec_def
  try_advisory_lock_def DB_INIT_ADVISORY_LOCK_KEY_def locked_of_def load_corpus_def
  path_exists_def path_is_dir_def sorted_files_def glob_txt_def matches_txt_def log_event_def
  upsert_document_def nextval_def new_sequence_def seq_max_def seq_min_def
  set_documents_sequence_def select_max_id_def max_id_of_def setval_def
  row_id_def row_filename_def row_content_def rollback_def Max.set_eq_fold
  fresh_store_def env_of_def some_engine_def tables_of_def

lemmas input_defs = seeded_store_def empty_tables_store_def explicit_ids_store_def dir_a_def dir_b_def
  dir_a_then_unreadable_def env_upsert_fails_def
  dir_b_then_unreadable_def store_locked_elsewhere_def

section \<open>The trace of a call\<close>

lemma extends_refl: "extends st st"
  by (simp add: extends_def)

lemma extends_trans: "extends st st1 \<Longrightarrow> extends st1 st2 \<Longrightarrow> extends st st2"
  by (auto simp: extends_def)

lemma extends_log: "\<not> is_transaction_mark ev \<Longrightarrow> extends st (log_event ev st)"
  by (simp add: extends_def log_event_def)

lemma conn_execute_trace:
  "trace (snd (conn_execute e q st)) = trace st @ [DbExecute q]"
  by (simp add: conn_execute_def Let_def split: prod.splits)

lemma conn_execute_calls:
  "calls (snd (conn_execute e q st)) = calls st + 1"
  by (simp add: conn_execute_def Let_def split: prod.splits)

lemma conn_execute_extends: "conn_execute e q st = (r, st') \<Longrightarrow> extends st st'"
  using conn_execute_trace [of e q st] by (simp add: extends_def)

lemma load_files_extends: "load_files e fs st = (r, st') \<Longrightarrow> extends st st'"
proof (induction fs arbitrary: st)
  case Nil
  then show ?case by (simp add: extends_refl)
next
  case (Cons f fs)
  show ?case
  proof (cases "snd f")
    case (Content content)
    obtain r1 st1 where ex: "conn_execute e (UpsertDocument (fst f) content) st = (r1, st1)"
      by (cases "conn_execute e (UpsertDocument (fst f) content) st")
    have a: "extends st st1" using ex by (rule conn_execute_extends)
    show ?thesis
    proof (cases r1)
      case (Inl err)
      with Content ex Cons.prems a show ?thesis by simp
    next
      case (Inr v)
      with Content ex Cons.prems have "load_files e fs st1 = (r, st')" by simp
      then have "extends st1 st'" by (rule Cons.IH)
      with a show ?thesis by (rule extends_trans)
    qed
  next
    case RaisesUnicodeDecodeError
    with Cons.prems have
      "load_files e fs (log_event (LogWarning (SkippingNonUtf8 (fst f))) st) = (r, st')" by simp
    then have "extends (log_event (LogWarning (SkippingNonUtf8 (fst f))) st) st'" by (rule Cons.IH)
    moreover have "extends st (log_event (LogWarning (SkippingNonUtf8 (fst f))) st)"
      by (simp add: extends_log)
    ultimately show ?thesis using extends_trans by blast
  next
    case RaisesOSError
    with Cons.prems show ?thesis by (simp add: extends_refl)
  qed
qed

lemma load_corpus_extends: "load_corpus e st = (r, st') \<Longrightarrow> extends st st'"
  by (auto simp: load_corpus_def extends_log dest: load_files_extends split: if_splits)

lemma set_documents_sequence_extends:
  assumes "set_documents_sequence e st = (r, st')"
  shows "extends st st'"
proof -
  obtain r1 st1 where a: "conn_execute e SelectMaxId st = (r1, st1)"
    by (cases "conn_execute e SelectMaxId st")
  have e1: "extends st st1" using a by (rule conn_execute_extends)
  show ?thesis
  proof (cases r1)
    case (Inl err)
    with a e1 assms show ?thesis by (simp add: set_documents_sequence_def)
  next
    case (Inr row)
    obtain r2 st2 where b: "conn_execute e (SetvalDocuments (max_id_of row)) st1 = (r2, st2)"
      by (cases "conn_execute e (SetvalDocuments (max_id_of row)) st1")
    have "extends st1 st2" using b by (rule conn_execute_extends)
    with e1 have "extends st st2" by (rule extends_trans)
    with a b Inr assms show ?thesis
      by (cases r2) (auto simp: set_documents_sequence_def)
  qed
qed

lemma create_schema_extends:
  assumes "create_schema e st = (r, st')"
  shows "extends st st'"
proof -
  obtain r2 st2 where a: "conn_execute e CreateTableDocuments st = (r2, st2)"
    by (cases "conn_execute e CreateTableDocuments st")
  obtain r3 st3 where b: "conn_execute e CreateTableAnalyses st2 = (r3, st3)"
    by (cases "conn_execute e CreateTableAnalyses st2")
  obtain r4 st4 where c: "conn_execute e CreateIndexAnalyses st3 = (r4, st4)"
    by (cases "conn_execute e CreateIndexAnalyses st3")
  have e2: "extends st st2" using a by (rule conn_execute_extends)
  have "extends st2 st3" using b by (rule conn_execute_extends)
  with e2 have e3: "extends st st3" by (rule extends_trans)
  have "extends st3 st4" using c by (rule conn_execute_extends)
  with e3 have e4: "extends st st4" by (rule extends_trans)
  show ?thesis
    using assms a b c e2 e3 e4
    by (auto simp: create_schema_def split: sum.splits)
qed

lemma initialize_extends:
  assumes "initialize e st = (r, st')"
  shows "extends st st'"
proof -
  obtain r4 st4 where a: "create_schema e st = (r4, st4)"
    by (cases "create_schema e st")
  obtain r5 st5 where b: "load_corpus e st4 = (r5, st5)"
    by (cases "load_corpus e st4")
  obtain r6 st6 where c: "set_documents_sequence e st5 = (r6, st6)"
    by (cases "set_documents_sequence e st5")
  have e4: "extends st st4" using a by (rule create_schema_extends)
  have "extends st4 st5" using b by (rule load_corpus_extends)
  with e4 have e5: "extends st st5" by (rule extends_trans)
  have "extends st5 st6" using c by (rule set_documents_sequence_extends)
  with e5 have e6: "extends st st6" by (rule extends_trans)
  show ?thesis
    using assms a b c e4 e5 e6
    by (auto simp: initialize_def split: sum.splits)
qed

lemma transaction_body_extends:
  assumes "transaction_body e st = (r, st')"
  shows "extends st st'"
proof -
  obtain r1 st1 where a: "conn_execute e (TryAdvisoryLock DB_INIT_ADVISORY_LOCK_KEY) st = (r1, st1)"
    by (cases "conn_execute e (TryAdvisoryLock DB_INIT_ADVISORY_LOCK_KEY) st")
  have e1: "extends st st1" using a by (rule conn_execute_extends)
  have e2: "extends st (log_event (LogInfo AnotherWorkerInitialized) st1)"
    by (rule extends_trans [OF e1 extends_log]) simp
  show ?thesis
  proof (cases r1)
    case (Inl err)
    with assms a e1 show ?thesis by (simp add: transaction_body_def)
  next
    case (Inr row)
    show ?thesis
    proof (cases "locked_of row")
      case True
      with assms a Inr have "initialize e st1 = (r, st')" by (simp add: transaction_body_def)
      then have "extends st1 st'" by (rule initialize_extends)
      with e1 show ?thesis by (rule extends_trans)
    next
      case False
      with assms a Inr e2 show ?thesis by (auto simp: transaction_body_def)
    qed
  qed
qed


lemma body_touches_store:
  assumes "transaction_body e (begin_transaction s) = (r, st)"
  shows "filter is_db_event (trace st @ tr) \<noteq> []"
    and "filter is_transaction_mark (trace st) = [DbBegin]"
proof -
  from assms have "extends (begin_transaction s) st" by (rule transaction_body_extends)
  then obtain tr' where t: "trace st = DbBegin # tr'" "filter is_transaction_mark tr' = []"
    by (auto simp: extends_def begin_transaction_def)
  from t show "filter is_db_event (trace st @ tr) \<noteq> []" by simp
  from t show "filter is_transaction_mark (trace st) = [DbBegin]" by simp
qed

section \<open>Rollback\<close>

lemma tables_of_rollback: "tables_of (rollback s0 s) = tables_of s0"
  by (simp add: tables_of_def rollback_def split: option.splits)

section \<open>The lock is not acquired\<close>

lemma try_lock_refused_keeps_store:
  assumes "fst (conn_execute e (TryAdvisoryLock k) st) = Inr row" and "\<not> locked_of row"
  shows "cur (snd (conn_execute e (TryAdvisoryLock k) st)) = cur st"
  using assms
  by (auto simp: conn_execute_def pg_exec_def try_advisory_lock_def locked_of_def Let_def
           split: if_splits option.splits)

text \<open>
  C1. When \<open>pg_try_advisory_lock\<close> answers false, \<open>load_txt_files_to_db\<close> returns
  normally (\<open>None\<close>), the store after the call is the store before it, and the
  call has run no statement but the lock attempt: no DDL, no upsert, no \<open>setval\<close>.
\<close>

theorem lock_not_acquired_is_noop:
  assumes "fst (conn_execute e (TryAdvisoryLock DB_INIT_ADVISORY_LOCK_KEY) (begin_transaction s)) = Inr locked_row"
    and "\<not> locked_of locked_row"
  shows "load_txt_files_to_db e (Some engine) s =
           (Inr PyNone, s,
            [DbBegin, DbExecute (TryAdvisoryLock DB_INIT_ADVISORY_LOCK_KEY),
             LogInfo AnotherWorkerInitialized, DbCommit])"
proof -
  let ?c = "conn_execute e (TryAdvisoryLock DB_INIT_ADVISORY_LOCK_KEY) (begin_transaction s)"
  have c: "cur (snd ?c) = s"
    using try_lock_refused_keeps_store [OF assms] by (simp add: begin_transaction_def)
  have t: "trace (snd ?c) = [DbBegin, DbExecute (TryAdvisoryLock DB_INIT_ADVISORY_LOCK_KEY)]"
    by (simp add: conn_execute_trace begin_transaction_def)
  have "transaction_body e (begin_transaction s) =
          (Inr EarlyReturn, log_event (LogInfo AnotherWorkerInitialized) (snd ?c))"
    using assms by (cases ?c) (simp add: transaction_body_def)
  then show ?thesis
    using c t by (simp add: load_txt_files_to_db_def log_event_def)
qed

theorem lock_not_acquired_is_noop_witness:
  "fst (conn_execute (env_of Missing) (TryAdvisoryLock DB_INIT_ADVISORY_LOCK_KEY)
          (begin_transaction store_locked_elsewhere)) = Inr (Some [SqlBool False])
   \<and> \<not> locked_of (Some [SqlBool False])
   \<and> load_txt_files_to_db (env_of Missing) (Some some_engine) store_locked_elsewhere =
       (Inr PyNone, store_locked_elsewhere,
        [DbBegin, DbExecute (TryAdvisoryLock DB_INIT_ADVISORY_LOCK_KEY),
         LogInfo AnotherWorkerInitialized, DbCommit])"
proof -
  have a: "fst (conn_execute (env_of Missing) (TryAdvisoryLock DB_INIT_ADVISORY_LOCK_KEY)
          (begin_transaction store_locked_elsewhere)) = Inr (Some [SqlBool False])"
    by (simp add: eval_defs store_locked_elsewhere_def)
  have b: "\<not> locked_of (Some [SqlBool False])"
    by (simp add: locked_of_def)
  from a b lock_not_acquired_is_noop [OF a b, of some_engine] show ?thesis by simp
qed

section \<open>No engine\<close>



section \<open>Sequence repair\<close>

text \<open>
  C3. On a \<open>documents\<close> table without rows, \<open>_set_documents_sequence\<close> reads
  \<open>COALESCE(MAX(id), 0) = 0\<close> and calls \<open>setval(seq, 0, true)\<close>, which the store
  refuses: 0 is below the sequence's \<open>MINVALUE 1\<close>. The repair raises instead of
  leaving the generator at baseline 0.
\<close>

theorem repair_fails_on_empty_table:
  "set_documents_sequence (env_of Missing) (begin_transaction empty_tables_store) =
     (Inl NumericValueOutOfRange,
      \<lparr>cur = empty_tables_store, calls = 2,
       trace = [DbBegin, DbExecute SelectMaxId, DbExecute (SetvalDocuments (SqlInt 0))]\<rparr>)"
  by (simp add: eval_defs input_defs)

text \<open>
  The rest of C3 holds: with the explicit ids 5, 12 and 3 in the table and the
  sequence never used, the repair sets the sequence to 12 and the next insert
  that takes its id from the generator gets 13.
\<close>

lemma repair_after_explicit_ids:
  "fst (set_documents_sequence (env_of Missing) (begin_transaction explicit_ids_store)) = Inr ()
   \<and> map_option doc_id_seq
        (documents (cur (snd (set_documents_sequence (env_of Missing) (begin_transaction explicit_ids_store)))))
       = Some \<lparr>last_value = 12, is_called = True\<rparr>
   \<and> map_option doc_rows
        (documents (snd (pg_exec 1 (UpsertDocument ''n.txt'' ''new'')
           (cur (snd (set_documents_sequence (env_of Missing) (begin_transaction explicit_ids_store)))))))
       = Some [(5, ''e.txt'', ''five''), (12, ''l.txt'', ''twelve''), (3, ''c.txt'', ''three''),
               (13, ''n.txt'', ''new'')]"
  by (simp add: eval_defs input_defs)

text \<open>
  In general: the repair fails on every empty table, and on a table with rows
  whose largest id lies within the bounds of the sequence it succeeds and puts
  the generator above every stored id.
\<close>

lemma repair_fails_on_every_empty_table:
  assumes "db_fault e = None" "documents (cur st) = Some t" "doc_rows t = []"
  shows "fst (set_documents_sequence e st) = Inl NumericValueOutOfRange"
  using assms
  by (simp add: set_documents_sequence_def conn_execute_def pg_exec_def Let_def max_id_of_def
        select_max_id_def setval_def seq_min_def)

lemma repair_restores_generator_invariant:
  assumes "db_fault e = None" "documents (cur st) = Some t" "doc_rows t \<noteq> []"
    and "seq_min \<le> select_max_id t" "select_max_id t \<le> seq_max"
  shows "fst (set_documents_sequence e st) = Inr ()
         \<and> documents (cur (snd (set_documents_sequence e st)))
             = Some (t\<lparr>doc_id_seq := \<lparr>last_value = select_max_id t, is_called = True\<rparr>\<rparr>)
         \<and> next_value \<lparr>last_value = select_max_id t, is_called = True\<rparr> = select_max_id t + 1
         \<and> ids_below (t\<lparr>doc_id_seq := \<lparr>last_value = select_max_id t, is_called = True\<rparr>\<rparr>)"
proof -
  have run: "fst (set_documents_sequence e st) = Inr ()
         \<and> documents (cur (snd (set_documents_sequence e st)))
             = Some (t\<lparr>doc_id_seq := \<lparr>last_value = select_max_id t, is_called = True\<rparr>\<rparr>)"
    using assms(1,2,4,5)
    by (simp add: set_documents_sequence_def conn_execute_def pg_exec_def Let_def max_id_of_def
          setval_def)
  have "row_id r \<le> select_max_id t" if "r \<in> set (doc_rows t)" for r
    using that assms(3) by (simp add: select_max_id_def)
  then have "ids_below (t\<lparr>doc_id_seq := \<lparr>last_value = select_max_id t, is_called = True\<rparr>\<rparr>)"
    by (fastforce simp: ids_below_def list_all_iff next_value_def)
  with run show ?thesis by (simp add: next_value_def)
qed

section \<open>Missing corpus directory\<close>

text \<open>
  C6. On a store without tables, with \<open>TEXT_DIR\<close> missing, the call creates the
  schema, logs the warning, loads nothing, and then fails in the sequence repair
  (\<open>setval(seq, 0, true)\<close> on the empty table): it raises, and the rollback takes
  the new tables away again.
\<close>

theorem missing_directory_on_fresh_store_fails:
  "load_txt_files_to_db (env_of Missing) (Some some_engine) fresh_store =
     (Inl NumericValueOutOfRange,
      fresh_store\<lparr>advisory_locks := [(DB_INIT_ADVISORY_LOCK_KEY, 1)]\<rparr>,
      [DbBegin, DbExecute (TryAdvisoryLock DB_INIT_ADVISORY_LOCK_KEY),
       DbExecute CreateTableDocuments, DbExecute CreateTableAnalyses, DbExecute CreateIndexAnalyses,
       LogWarning TextDirMissing,
       DbExecute SelectMaxId, DbExecute (SetvalDocuments (SqlInt 0)), DbRollback])"
  by (simp add: eval_defs input_defs)

text \<open>
  With a row in the table the same call succeeds: the branch for the missing
  directory is not what fails.
\<close>

lemma missing_directory_on_seeded_store_succeeds:
  "load_txt_files_to_db (env_of Missing) (Some some_engine) seeded_store =
     (Inr PyNone,
      seeded_store\<lparr>advisory_locks := [(DB_INIT_ADVISORY_LOCK_KEY, 1)]\<rparr>,
      [DbBegin, DbExecute (TryAdvisoryLock DB_INIT_ADVISORY_LOCK_KEY),
       DbExecute CreateTableDocuments, DbExecute CreateTableAnalyses, DbExecute CreateIndexAnalyses,
       LogWarning TextDirMissing,
       DbExecute SelectMaxId, DbExecute (SetvalDocuments (SqlInt 1)), DbCommit,
       LogInfo DatabaseInitialized])"
  by (simp add: eval_defs input_defs)

section \<open>Counting the upserts\<close>

lemma conn_execute_upserts:
  "length (filter is_upsert (trace (snd (conn_execute e q st))))
     = length (filter is_upsert (trace st)) + (if is_upsert (DbExecute q) then 1 else 0)"
  by (simp add: conn_execute_trace)

lemma load_files_upserts:
  "load_files e fs st = (Inr u, st') \<Longrightarrow>
   length (filter is_upsert (trace st'))
     = length (filter is_upsert (trace st)) + length (filter (\<lambda>f. is_content (snd f)) fs)"
proof (induction fs arbitrary: st)
  case Nil
  then show ?case by simp
next
  case (Cons f fs)
  show ?case
  proof (cases "snd f")
    case (Content content)
    obtain r1 st1 where ex: "conn_execute e (UpsertDocument (fst f) content) st = (r1, st1)"
      by (cases "conn_execute e (UpsertDocument (fst f) content) st")
    have n1: "length (filter is_upsert (trace st1)) = length (filter is_upsert (trace st)) + 1"
      using conn_execute_upserts [of e "UpsertDocument (fst f) content" st] ex by simp
    show ?thesis
    proof (cases r1)
      case (Inl err)
      with Content ex Cons.prems show ?thesis by simp
    next
      case (Inr v)
      with Content ex Cons.prems have "load_files e fs st1 = (Inr u, st')" by simp
      from Cons.IH [OF this] n1 Content show ?thesis by simp
    qed
  next
    case RaisesUnicodeDecodeError
    with Cons.prems have
      "load_files e fs (log_event (LogWarning (SkippingNonUtf8 (fst f))) st) = (Inr u, st')" by simp
    from Cons.IH [OF this] RaisesUnicodeDecodeError show ?thesis by (simp add: log_event_def)
  next
    case RaisesOSError
    with Cons.prems show ?thesis by simp
  qed
qed

lemma length_filter_sort_key:
  "length (filter P (sort_key k xs)) = length (filter P xs)"
  by (simp add: filter_sort)

lemma load_corpus_upserts:
  assumes "load_corpus e st = (Inr u, st')"
  shows "length (filter is_upsert (trace st'))
           = length (filter is_upsert (trace st))
             + length (filter (\<lambda>f. is_content (snd f)) (glob_txt (text_dir e)))"
proof (cases "text_dir e")
  case (Directory es)
  with assms have "load_files e (sorted_files (text_dir e)) st = (Inr u, st')"
    by (simp add: load_corpus_def path_exists_def path_is_dir_def)
  from load_files_upserts [OF this] show ?thesis
    by (simp add: sorted_files_def length_filter_sort_key)
next
  case Missing
  with assms show ?thesis
    by (auto simp: load_corpus_def path_exists_def path_is_dir_def glob_txt_def log_event_def)
next
  case NotADirectory
  with assms show ?thesis
    by (auto simp: load_corpus_def path_exists_def path_is_dir_def glob_txt_def log_event_def)
qed

lemma set_documents_sequence_upserts:
  "length (filter is_upsert (trace (snd (set_documents_sequence e st))))
     = length (filter is_upsert (trace st))"
proof -
  obtain r1 st1 where a: "conn_execute e SelectMaxId st = (r1, st1)"
    by (cases "conn_execute e SelectMaxId st")
  have n1: "length (filter is_upsert (trace st1)) = length (filter is_upsert (trace st))"
    using conn_execute_upserts [of e SelectMaxId st] a by simp
  show ?thesis
  proof (cases r1)
    case (Inl err)
    with a n1 show ?thesis by (simp add: set_documents_sequence_def)
  next
    case (Inr row)
    obtain r2 st2 where b: "conn_execute e (SetvalDocuments (max_id_of row)) st1 = (r2, st2)"
      by (cases "conn_execute e (SetvalDocuments (max_id_of row)) st1")
    have "length (filter is_upsert (trace st2)) = length (filter is_upsert (trace st1))"
      using conn_execute_upserts [of e "SetvalDocuments (max_id_of row)" st1] b by simp
    with a b n1 Inr show ?thesis
      by (cases r2) (simp_all add: set_documents_sequence_def)
  qed
qed

lemma create_schema_upserts:
  "length (filter is_upsert (trace (snd (create_schema e st))))
     = length (filter is_upsert (trace st))"
proof -
  obtain r2 st2 where a: "conn_execute e CreateTableDocuments st = (r2, st2)"
    by (cases "conn_execute e CreateTableDocuments st")
  obtain r3 st3 where b: "conn_execute e CreateTableAnalyses st2 = (r3, st3)"
    by (cases "conn_execute e CreateTableAnalyses st2")
  obtain r4 st4 where c: "conn_execute e CreateIndexAnalyses st3 = (r4, st4)"
    by (cases "conn_execute e CreateIndexAnalyses st3")
  have n2: "length (filter is_upsert (trace st2)) = length (filter is_upsert (trace st))"
    using conn_execute_upserts [of e CreateTableDocuments st] a by simp
  have n3: "length (filter is_upsert (trace st3)) = length (filter is_upsert (trace st))"
    using conn_execute_upserts [of e CreateTableAnalyses st2] b n2 by simp
  have n4: "length (filter is_upsert (trace st4)) = length (filter is_upsert (trace st))"
    using conn_execute_upserts [of e CreateIndexAnalyses st3] c n3 by simp
  show ?thesis
    using a b c n2 n3 n4 by (auto simp: create_schema_def split: sum.splits)
qed

lemma initialize_upserts:
  assumes "initialize e st = (Inr x, st')"
  shows "x = Completed
         \<and> length (filter is_upsert (trace st'))
             = length (filter is_upsert (trace st))
               + length (filter (\<lambda>f. is_content (snd f)) (glob_txt (text_dir e)))"
proof -
  obtain r4 st4 where a: "create_schema e st = (r4, st4)"
    by (cases "create_schema e st")
  obtain r5 st5 where b: "load_corpus e st4 = (r5, st5)"
    by (cases "load_corpus e st4")
  obtain r6 st6 where c: "set_documents_sequence e st5 = (r6, st6)"
    by (cases "set_documents_sequence e st5")
  from assms a b c obtain u where ok: "r5 = Inr u" and fin: "st' = st6" and x: "x = Completed"
    by (auto simp: initialize_def split: sum.splits)
  have n4: "length (filter is_upsert (trace st4)) = length (filter is_upsert (trace st))"
    using create_schema_upserts [of e st] a by simp
  have n5: "length (filter is_upsert (trace st5))
              = length (filter is_upsert (trace st4))
                + length (filter (\<lambda>f. is_content (snd f)) (glob_txt (text_dir e)))"
    using load_corpus_upserts [of e st4 u st5] b ok by simp
  have n6: "length (filter is_upsert (trace st6)) = length (filter is_upsert (trace st5))"
    using set_documents_sequence_upserts [of e st5] c by simp
  from x fin n4 n5 n6 show ?thesis by simp
qed

text \<open>
  C7, as amended. Where \<open>load_txt_files_to_db\<close> returns, it returns \<open>None\<close>. The
  count of files processed shows in what the call did: a call that went through
  the initialization has run one upsert for each matching file that decoded, and
  a call that found the lock taken has run none.
\<close>

theorem returns_none_and_upserts_each_decoded_file:
  assumes "load_txt_files_to_db e engine s = (Inr v, s', tr)"
  shows "v = PyNone
         \<and> length (filter is_upsert tr)
             = (if last tr = LogInfo DatabaseInitialized
                then length (filter (\<lambda>f. is_content (snd f)) (glob_txt (text_dir e)))
                else 0)"
proof (cases engine)
  case None
  with assms show ?thesis by (simp add: load_txt_files_to_db_def)
next
  case (Some a)
  let ?k = "TryAdvisoryLock DB_INIT_ADVISORY_LOCK_KEY"
  obtain r1 st1 where lk: "conn_execute e ?k (begin_transaction s) = (r1, st1)"
    by (cases "conn_execute e ?k (begin_transaction s)")
  have n1: "length (filter is_upsert (trace st1)) = 0"
    using conn_execute_upserts [of e ?k "begin_transaction s"] lk
    by (simp add: begin_transaction_def)
  obtain r st where b: "transaction_body e (begin_transaction s) = (r, st)"
    by (cases "transaction_body e (begin_transaction s)")
  from assms Some b obtain x where r: "r = Inr x"
    by (auto simp: load_txt_files_to_db_def split: sum.splits)
  from b r lk obtain row where row: "r1 = Inr row"
    by (auto simp: transaction_body_def split: sum.splits)
  show ?thesis
  proof (cases "locked_of row")
    case True
    with b r lk row have "initialize e st1 = (Inr x, st)" by (simp add: transaction_body_def)
    from initialize_upserts [OF this] n1 assms Some b r show ?thesis
      by (auto simp: load_txt_files_to_db_def)
  next
    case False
    with b r lk row have "x = EarlyReturn" "st = log_event (LogInfo AnotherWorkerInitialized) st1"
      by (auto simp: transaction_body_def)
    with n1 assms Some b r show ?thesis
      by (auto simp: load_txt_files_to_db_def log_event_def)
  qed
qed

theorem returns_none_and_upserts_each_decoded_file_witness:
  "load_txt_files_to_db (env_of dir_a) (Some some_engine) fresh_store =
     (Inr PyNone,
      fst (snd (load_txt_files_to_db (env_of dir_a) (Some some_engine) fresh_store)),
      snd (snd (load_txt_files_to_db (env_of dir_a) (Some some_engine) fresh_store)))
   \<and> last (snd (snd (load_txt_files_to_db (env_of dir_a) (Some some_engine) fresh_store)))
       = LogInfo DatabaseInitialized
   \<and> length (filter is_upsert (snd (snd (load_txt_files_to_db (env_of dir_a) (Some some_engine) fresh_store))))
       = length (filter (\<lambda>f. is_content (snd f)) (glob_txt (text_dir (env_of dir_a))))
   \<and> length (filter (\<lambda>f. is_content (snd f)) (glob_txt (text_dir (env_of dir_a)))) = 1"
proof -
  have a: "load_txt_files_to_db (env_of dir_a) (Some some_engine) fresh_store =
     (Inr PyNone,
      fst (snd (load_txt_files_to_db (env_of dir_a) (Some some_engine) fresh_store)),
      snd (snd (load_txt_files_to_db (env_of dir_a) (Some some_engine) fresh_store)))"
    by (simp add: eval_defs input_defs)
  have b: "last (snd (snd (load_txt_files_to_db (env_of dir_a) (Some some_engine) fresh_store)))
       = LogInfo DatabaseInitialized"
    by (simp add: eval_defs input_defs)
  have c: "length (filter (\<lambda>f. is_content (snd f)) (glob_txt (text_dir (env_of dir_a)))) = 1"
    by (simp add: eval_defs input_defs)
  from returns_none_and_upserts_each_decoded_file [OF a] a b c show ?thesis by simp
qed

text \<open>
  C7 as stated fails: over a directory with one matching file, loaded by one
  upsert, the call returns \<open>None\<close>, not the count 1.
\<close>

theorem no_count_returned:
  "fst (load_txt_files_to_db (env_of dir_a) (Some some_engine) fresh_store) = Inr PyNone
   \<and> length (glob_txt (text_dir (env_of dir_a))) = 1
   \<and> length (filter is_upsert (snd (snd (load_txt_files_to_db (env_of dir_a) (Some some_engine) fresh_store)))) = 1
   \<and> fst (load_txt_files_to_db (env_of dir_a) (Some some_engine) fresh_store) \<noteq> Inr (PyInt 1)"
  by (simp add: eval_defs input_defs)

section \<open>A file that cannot be read\<close>

lemma load_files_ok_no_oserror:
  "load_files e fs st = (Inr u, st') \<Longrightarrow> \<not> raises_oserror fs"
proof (induction fs arbitrary: st)
  case Nil
  then show ?case by (simp add: raises_oserror_def)
next
  case (Cons f fs)
  show ?case
  proof (cases "snd f")
    case (Content content)
    obtain r1 st1 where ex: "conn_execute e (UpsertDocument (fst f) content) st = (r1, st1)"
      by (cases "conn_execute e (UpsertDocument (fst f) content) st")
    show ?thesis
    proof (cases r1)
      case (Inl err)
      with Content ex Cons.prems show ?thesis by simp
    next
      case (Inr v)
      with Content ex Cons.prems have "load_files e fs st1 = (Inr u, st')" by simp
      from Cons.IH [OF this] Content show ?thesis by (simp add: raises_oserror_def)
    qed
  next
    case RaisesUnicodeDecodeError
    with Cons.prems have
      "load_files e fs (log_event (LogWarning (SkippingNonUtf8 (fst f))) st) = (Inr u, st')" by simp
    from Cons.IH [OF this] RaisesUnicodeDecodeError show ?thesis by (simp add: raises_oserror_def)
  next
    case RaisesOSError
    with Cons.prems show ?thesis by simp
  qed
qed

lemma raises_oserror_sort_key: "raises_oserror (sort_key k fs) = raises_oserror fs"
  by (simp add: raises_oserror_def list_ex_iff)

lemma glob_txt_nonempty_is_dir:
  "glob_txt n \<noteq> [] \<Longrightarrow> path_exists n \<and> path_is_dir n"
  by (cases n) (simp_all add: glob_txt_def path_exists_def path_is_dir_def)

lemma load_corpus_fails_on_oserror:
  assumes "raises_oserror (glob_txt (text_dir e))"
  shows "\<exists>err. fst (load_corpus e st) = Inl err"
proof -
  from assms have ne: "glob_txt (text_dir e) \<noteq> []" by (auto simp: raises_oserror_def)
  obtain r st' where b: "load_files e (sorted_files (text_dir e)) st = (r, st')"
    by (cases "load_files e (sorted_files (text_dir e)) st")
  have "\<exists>err. r = Inl err"
  proof (cases r)
    case (Inl err)
    then show ?thesis by simp
  next
    case (Inr u)
    with b load_files_ok_no_oserror [of e "sorted_files (text_dir e)" st u st'] assms
    show ?thesis by (simp add: sorted_files_def raises_oserror_sort_key)
  qed
  with b glob_txt_nonempty_is_dir [OF ne] show ?thesis by (auto simp: load_corpus_def)
qed

lemma initialize_fails_on_oserror:
  assumes "raises_oserror (glob_txt (text_dir e))"
  shows "\<exists>err. fst (initialize e st) = Inl err"
proof -
  obtain r4 st4 where a: "create_schema e st = (r4, st4)"
    by (cases "create_schema e st")
  from load_corpus_fails_on_oserror [OF assms, of st4] obtain err st5 where
    "load_corpus e st4 = (Inl err, st5)"
    by (cases "load_corpus e st4") auto
  with a show ?thesis by (auto simp: initialize_def split: sum.splits)
qed

lemma lock_granted:
  assumes "fst (try_advisory_lock (session_id e) k (advisory_locks (cur st)))"
  shows "fst (conn_execute e (TryAdvisoryLock k) st) = Inl DBAPIError
         \<or> (\<exists>row. fst (conn_execute e (TryAdvisoryLock k) st) = Inr row \<and> locked_of row)"
  using assms
  by (auto simp: conn_execute_def pg_exec_def locked_of_def Let_def split: prod.splits)

lemma transaction_body_fails_on_oserror:
  assumes "raises_oserror (glob_txt (text_dir e))"
    and "fst (try_advisory_lock (session_id e) DB_INIT_ADVISORY_LOCK_KEY (advisory_locks (cur st)))"
  shows "\<exists>err. fst (transaction_body e st) = Inl err"
proof -
  let ?k = "TryAdvisoryLock DB_INIT_ADVISORY_LOCK_KEY"
  obtain r1 st1 where lk: "conn_execute e ?k st = (r1, st1)"
    by (cases "conn_execute e ?k st")
  from lock_granted [OF assms(2)] lk
  consider "r1 = Inl DBAPIError" | row where "r1 = Inr row" "locked_of row" by auto
  then show ?thesis
  proof cases
    case 1
    with lk show ?thesis by (simp add: transaction_body_def)
  next
    case 2
    with lk initialize_fails_on_oserror [OF assms(1), of st1] show ?thesis
      by (auto simp: transaction_body_def)
  qed
qed


section \<open>Upserts that cannot fail\<close>

lemma nextval_next_value:
  "next_value q \<le> seq_max \<Longrightarrow>
   \<exists>q'. nextval q = Inr (next_value q, q') \<and> next_value q' = next_value q + 1"
  by (auto simp: nextval_def next_value_def)

lemma upsert_document_ok:
  assumes "nul_free fn" "nul_free c" "ids_below t" "next_value (doc_id_seq t) \<le> seq_max"
  shows "\<exists>t'. upsert_document fn c t = (Inr (), t') \<and> ids_below t'
              \<and> next_value (doc_id_seq t') = next_value (doc_id_seq t) + 1"
proof -
  from nextval_next_value [OF assms(4)] obtain q' where
    nv: "nextval (doc_id_seq t) = Inr (next_value (doc_id_seq t), q')"
    and nq: "next_value q' = next_value (doc_id_seq t) + 1" by blast
  have fresh_id: "next_value (doc_id_seq t) \<notin> set (map row_id (doc_rows t))"
    using assms(3) by (auto simp: ids_below_def list_all_iff)
  show ?thesis
  proof (cases "fn \<in> set (map row_filename (doc_rows t))")
    case True
    with assms nv nq show ?thesis
      by (auto simp: upsert_document_def nul_free_def ids_below_def list_all_iff row_id_def)
  next
    case False
    with assms nv nq fresh_id show ?thesis
      by (auto simp: upsert_document_def nul_free_def ids_below_def list_all_iff row_id_def)
  qed
qed

lemma conn_execute_upsert_ok:
  assumes "db_fault e = None" "documents (cur st) = Some t"
    and "nul_free fn" "nul_free c" "ids_below t" "next_value (doc_id_seq t) \<le> seq_max"
  shows "\<exists>row st' t'. conn_execute e (UpsertDocument fn c) st = (Inr row, st')
           \<and> documents (cur st') = Some t' \<and> ids_below t'
           \<and> next_value (doc_id_seq t') = next_value (doc_id_seq t) + 1"
proof -
  from upsert_document_ok [OF assms(3-6)] obtain t' where
    "upsert_document fn c t = (Inr (), t')" "ids_below t'"
    "next_value (doc_id_seq t') = next_value (doc_id_seq t) + 1" by blast
  with assms(1,2) show ?thesis
    by (simp add: conn_execute_def pg_exec_def Let_def)
qed

lemma load_files_healthy:
  assumes "db_fault e = None"
  shows "documents (cur st) = Some t \<Longrightarrow> ids_below t \<Longrightarrow>
         next_value (doc_id_seq t) + int (length fs) \<le> seq_max + 1 \<Longrightarrow>
         texts_nul_free fs \<Longrightarrow>
         fst (load_files e fs st) = (if raises_oserror fs then Inl OSError else Inr ())"
proof (induction fs arbitrary: st t)
  case Nil
  then show ?case by (simp add: raises_oserror_def)
next
  case (Cons f fs)
  show ?case
  proof (cases "snd f")
    case (Content content)
    from Cons.prems(4) Content have nf: "nul_free (fst f)" "nul_free content" "texts_nul_free fs"
      by (simp_all add: texts_nul_free_def)
    from Cons.prems(3) have room1: "next_value (doc_id_seq t) \<le> seq_max" by simp
    from conn_execute_upsert_ok [OF assms Cons.prems(1) nf(1,2) Cons.prems(2) room1]
    obtain row st1 t1 where ex: "conn_execute e (UpsertDocument (fst f) content) st = (Inr row, st1)"
      and d1: "documents (cur st1) = Some t1" and i1: "ids_below t1"
      and n1: "next_value (doc_id_seq t1) = next_value (doc_id_seq t) + 1" by blast
    from Cons.prems(3) n1 have room: "next_value (doc_id_seq t1) + int (length fs) \<le> seq_max + 1"
      by simp
    from Cons.IH [OF d1 i1 room nf(3)] Content ex show ?thesis
      by (simp add: raises_oserror_def)
  next
    case RaisesUnicodeDecodeError
    let ?st = "log_event (LogWarning (SkippingNonUtf8 (fst f))) st"
    have d: "documents (cur ?st) = Some t" using Cons.prems(1) by (simp add: log_event_def)
    from Cons.prems(3) have room: "next_value (doc_id_seq t) + int (length fs) \<le> seq_max + 1"
      by simp
    from Cons.prems(4) have nf: "texts_nul_free fs" by (simp add: texts_nul_free_def)
    from Cons.IH [OF d Cons.prems(2) room nf] RaisesUnicodeDecodeError show ?thesis
      by (simp add: raises_oserror_def)
  next
    case RaisesOSError
    then show ?thesis by (simp add: raises_oserror_def)
  qed
qed

lemma create_schema_ok:
  assumes "db_fault e = None"
  shows "fst (create_schema e st) = Inr ()
         \<and> documents (cur (snd (create_schema e st)))
             = Some (case documents (cur st) of
                       None \<Rightarrow> \<lparr>doc_rows = [], doc_id_seq = new_sequence\<rparr>
                     | Some t \<Rightarrow> t)"
  using assms
  by (simp add: create_schema_def conn_execute_def pg_exec_def Let_def split: option.splits)

lemma texts_nul_free_sort_key: "texts_nul_free (sort_key k fs) = texts_nul_free fs"
  by (simp add: texts_nul_free_def list_all_iff)

lemma initialize_oserror:
  assumes "db_fault e = None" "healthy (cur st) (length (glob_txt (text_dir e)))"
    and "texts_nul_free (glob_txt (text_dir e))" "raises_oserror (glob_txt (text_dir e))"
  shows "fst (initialize e st) = Inl OSError"
proof -
  obtain r4 st4 where a: "create_schema e st = (r4, st4)"
    by (cases "create_schema e st")
  from create_schema_ok [OF assms(1), of st] a obtain t where
    r4: "r4 = Inr ()" and d4: "documents (cur st4) = Some t"
    and t: "t = (case documents (cur st) of
                   None \<Rightarrow> \<lparr>doc_rows = [], doc_id_seq = new_sequence\<rparr> | Some t0 \<Rightarrow> t0)"
    by simp
  from assms(2) t have ib: "ids_below t"
    and room: "next_value (doc_id_seq t) + int (length (sorted_files (text_dir e))) \<le> seq_max + 1"
    by (auto simp: healthy_def ids_below_def next_value_def new_sequence_def sorted_files_def
             split: option.splits)
  from assms(3) have nf: "texts_nul_free (sorted_files (text_dir e))"
    by (simp add: sorted_files_def texts_nul_free_sort_key)
  from assms(4) have os: "raises_oserror (sorted_files (text_dir e))"
    by (simp add: sorted_files_def raises_oserror_sort_key)
  from assms(4) have ne: "glob_txt (text_dir e) \<noteq> []" by (auto simp: raises_oserror_def)
  have "fst (load_files e (sorted_files (text_dir e)) st4) = Inl OSError"
    using load_files_healthy [OF assms(1) d4 ib room nf] os by simp
  with glob_txt_nonempty_is_dir [OF ne] have "fst (load_corpus e st4) = Inl OSError"
    by (simp add: load_corpus_def)
  with a r4 show ?thesis
    by (cases "load_corpus e st4") (simp add: initialize_def)
qed

lemma transaction_body_oserror:
  assumes "db_fault e = None" "healthy (cur st) (length (glob_txt (text_dir e)))"
    and "texts_nul_free (glob_txt (text_dir e))" "raises_oserror (glob_txt (text_dir e))"
    and "fst (try_advisory_lock (session_id e) DB_INIT_ADVISORY_LOCK_KEY (advisory_locks (cur st)))"
  shows "fst (transaction_body e st) = Inl OSError"
proof -
  let ?k = "TryAdvisoryLock DB_INIT_ADVISORY_LOCK_KEY"
  obtain r1 st1 where lk: "conn_execute e ?k st = (r1, st1)"
    by (cases "conn_execute e ?k st")
  from assms(1,5) lk obtain row where row: "r1 = Inr row" "locked_of row"
    and d: "documents (cur st1) = documents (cur st)"
    by (auto simp: conn_execute_def pg_exec_def locked_of_def Let_def split: prod.splits)
  from assms(2) d have "healthy (cur st1) (length (glob_txt (text_dir e)))"
    by (simp add: healthy_def)
  from initialize_oserror [OF assms(1) this assms(3,4)] lk row show ?thesis
    by (simp add: transaction_body_def)
qed

text \<open>
  C10. When a matching file of the corpus raises an \<open>OSError\<close> on reading and the
  call gets the lock, \<open>load_txt_files_to_db\<close> raises: the tables of the store are
  what they were before the call (the schema just created and the documents
  loaded so far are gone) and the transaction ends by a rollback. When nothing
  else fails before (no failure of the store, ids left in the generator, no NUL
  in the texts) the error raised is that \<open>OSError\<close>.
\<close>

theorem unreadable_file_aborts_bootstrap:
  assumes "raises_oserror (glob_txt (text_dir e))"
    and "fst (try_advisory_lock (session_id e) DB_INIT_ADVISORY_LOCK_KEY (advisory_locks s))"
  shows "(\<exists>err. fst (load_txt_files_to_db e (Some engine) s) = Inl err)
         \<and> tables_of (fst (snd (load_txt_files_to_db e (Some engine) s))) = tables_of s
         \<and> last (snd (snd (load_txt_files_to_db e (Some engine) s))) = DbRollback
         \<and> (db_fault e = None \<and> healthy s (length (glob_txt (text_dir e)))
              \<and> texts_nul_free (glob_txt (text_dir e))
            \<longrightarrow> fst (load_txt_files_to_db e (Some engine) s) = Inl OSError)"
proof -
  have lk: "fst (try_advisory_lock (session_id e) DB_INIT_ADVISORY_LOCK_KEY
                   (advisory_locks (cur (begin_transaction s))))"
    using assms(2) by (simp add: begin_transaction_def)
  from transaction_body_fails_on_oserror [OF assms(1) lk] obtain err st where
    b: "transaction_body e (begin_transaction s) = (Inl err, st)"
    by (cases "transaction_body e (begin_transaction s)") auto
  have os: "err = OSError"
    if "db_fault e = None" "healthy s (length (glob_txt (text_dir e)))"
       "texts_nul_free (glob_txt (text_dir e))"
  proof -
    from that(2) have "healthy (cur (begin_transaction s)) (length (glob_txt (text_dir e)))"
      by (simp add: begin_transaction_def)
    from transaction_body_oserror [OF that(1) this that(3) assms(1) lk] b show ?thesis by simp
  qed
  from b os show ?thesis
    by (simp add: load_txt_files_to_db_def tables_of_rollback)
qed

theorem unreadable_file_aborts_bootstrap_witness:
  "raises_oserror (glob_txt (text_dir (env_of dir_b_then_unreadable)))
   \<and> fst (try_advisory_lock (session_id (env_of dir_b_then_unreadable)) DB_INIT_ADVISORY_LOCK_KEY
            (advisory_locks fresh_store))
   \<and> db_fault (env_of dir_b_then_unreadable) = None
   \<and> healthy fresh_store (length (glob_txt (text_dir (env_of dir_b_then_unreadable))))
   \<and> texts_nul_free (glob_txt (text_dir (env_of dir_b_then_unreadable)))
   \<and> fst (load_txt_files_to_db (env_of dir_b_then_unreadable) (Some some_engine) fresh_store) = Inl OSError
   \<and> tables_of (fst (snd (load_txt_files_to_db (env_of dir_b_then_unreadable) (Some some_engine) fresh_store)))
       = tables_of fresh_store
   \<and> last (snd (snd (load_txt_files_to_db (env_of dir_b_then_unreadable) (Some some_engine) fresh_store)))
       = DbRollback"
proof -
  have a: "raises_oserror (glob_txt (text_dir (env_of dir_b_then_unreadable)))"
    by (simp add: raises_oserror_def eval_defs input_defs)
  have b: "fst (try_advisory_lock (session_id (env_of dir_b_then_unreadable)) DB_INIT_ADVISORY_LOCK_KEY
            (advisory_locks fresh_store))"
    by (simp add: eval_defs)
  have c: "db_fault (env_of dir_b_then_unreadable) = None"
    by (simp add: env_of_def)
  have d: "healthy fresh_store (length (glob_txt (text_dir (env_of dir_b_then_unreadable))))"
    by (simp add: healthy_def eval_defs input_defs)
  have f: "texts_nul_free (glob_txt (text_dir (env_of dir_b_then_unreadable)))"
    by (simp add: texts_nul_free_def nul_free_def eval_defs input_defs)
  from unreadable_file_aborts_bootstrap [OF a b, of some_engine] a b c d f show ?thesis
    by simp
qed

section \<open>Files that fail to decode\<close>

lemma agree_refl: "agree x x"
  by (simp add: agree_def)

lemma conn_execute_agree:
  assumes "session_id e' = session_id e" "db_fault e' = db_fault e" "core st = core st'"
  shows "agree (conn_execute e q st) (conn_execute e' q st')"
  using assms
  by (auto simp: agree_def core_def conn_execute_def Let_def split: prod.splits)

lemma log_event_core: "core (log_event ev st) = core st"
  by (simp add: core_def log_event_def)

lemma load_files_agree:
  assumes "session_id e' = session_id e" "db_fault e' = db_fault e"
  shows "core st = core st' \<Longrightarrow>
         agree (load_files e fs st)
               (load_files e' (filter (\<lambda>f. snd f \<noteq> RaisesUnicodeDecodeError) fs) st')"
proof (induction fs arbitrary: st st')
  case Nil
  then show ?case by (simp add: agree_def)
next
  case (Cons f fs)
  show ?case
  proof (cases "snd f")
    case (Content content)
    obtain r1 st1 where ex: "conn_execute e (UpsertDocument (fst f) content) st = (r1, st1)"
      by (cases "conn_execute e (UpsertDocument (fst f) content) st")
    obtain r1' st1' where ex': "conn_execute e' (UpsertDocument (fst f) content) st' = (r1', st1')"
      by (cases "conn_execute e' (UpsertDocument (fst f) content) st'")
    from conn_execute_agree [OF assms Cons.prems, of "UpsertDocument (fst f) content"] ex ex'
    have same: "r1' = r1" "core st1 = core st1'" by (simp_all add: agree_def)
    show ?thesis
    proof (cases r1)
      case (Inl err)
      with Content ex ex' same show ?thesis by (simp add: agree_def)
    next
      case (Inr v)
      with Content ex ex' same Cons.IH [OF same(2)] show ?thesis by simp
    qed
  next
    case RaisesUnicodeDecodeError
    have "core (log_event (LogWarning (SkippingNonUtf8 (fst f))) st) = core st'"
      using Cons.prems by (simp add: log_event_core)
    from Cons.IH [OF this] RaisesUnicodeDecodeError show ?thesis by simp
  next
    case RaisesOSError
    with Cons.prems show ?thesis by (simp add: agree_def)
  qed
qed

lemma sorted_files_without_undecodable:
  "sorted_files (without_undecodable n)
     = filter (\<lambda>f. snd f \<noteq> RaisesUnicodeDecodeError) (sorted_files n)"
proof (cases n)
  case (Directory es)
  have "filter (\<lambda>f. matches_txt (fst f)) (filter (\<lambda>f. snd f \<noteq> RaisesUnicodeDecodeError) es)
          = filter (\<lambda>f. snd f \<noteq> RaisesUnicodeDecodeError) (filter (\<lambda>f. matches_txt (fst f)) es)"
    by (simp add: conj_commute)
  with Directory show ?thesis
    by (simp add: sorted_files_def glob_txt_def without_undecodable_def filter_sort)
qed (simp_all add: sorted_files_def glob_txt_def without_undecodable_def)

lemma path_without_undecodable:
  "path_exists (without_undecodable n) = path_exists n"
  "path_is_dir (without_undecodable n) = path_is_dir n"
  by (cases n; simp add: path_exists_def path_is_dir_def without_undecodable_def)+

lemma load_corpus_agree:
  assumes "e' = e\<lparr>text_dir := without_undecodable (text_dir e)\<rparr>" "core st = core st'"
  shows "agree (load_corpus e st) (load_corpus e' st')"
proof -
  have env: "session_id e' = session_id e" "db_fault e' = db_fault e"
    using assms(1) by simp_all
  have td: "text_dir e' = without_undecodable (text_dir e)" using assms(1) by simp
  show ?thesis
    using load_files_agree [OF env assms(2), of "sorted_files (text_dir e)"] assms(2)
    by (simp add: load_corpus_def td path_without_undecodable sorted_files_without_undecodable
                  agree_def log_event_core)
qed

lemma set_documents_sequence_agree:
  assumes "session_id e' = session_id e" "db_fault e' = db_fault e" "core st = core st'"
  shows "agree (set_documents_sequence e st) (set_documents_sequence e' st')"
proof -
  obtain r1 st1 where a: "conn_execute e SelectMaxId st = (r1, st1)"
    by (cases "conn_execute e SelectMaxId st")
  obtain r1' st1' where a': "conn_execute e' SelectMaxId st' = (r1', st1')"
    by (cases "conn_execute e' SelectMaxId st'")
  from conn_execute_agree [OF assms, of SelectMaxId] a a'
  have s1: "r1' = r1" "core st1 = core st1'" by (simp_all add: agree_def)
  show ?thesis
  proof (cases r1)
    case (Inl err)
    with a a' s1 show ?thesis by (simp add: set_documents_sequence_def agree_def)
  next
    case (Inr row)
    obtain r2 st2 where b: "conn_execute e (SetvalDocuments (max_id_of row)) st1 = (r2, st2)"
      by (cases "conn_execute e (SetvalDocuments (max_id_of row)) st1")
    obtain r2' st2' where b': "conn_execute e' (SetvalDocuments (max_id_of row)) st1' = (r2', st2')"
      by (cases "conn_execute e' (SetvalDocuments (max_id_of row)) st1'")
    from conn_execute_agree [OF assms(1,2) s1(2), of "SetvalDocuments (max_id_of row)"] b b'
    have "r2' = r2" "core st2 = core st2'" by (simp_all add: agree_def)
    with a a' b b' s1 Inr show ?thesis
      by (cases r2) (simp_all add: set_documents_sequence_def agree_def)
  qed
qed

lemma create_schema_agree:
  assumes "session_id e' = session_id e" "db_fault e' = db_fault e" "core st = core st'"
  shows "agree (create_schema e st) (create_schema e' st')"
proof -
  obtain r2 st2 where a: "conn_execute e CreateTableDocuments st = (r2, st2)"
    by (cases "conn_execute e CreateTableDocuments st")
  obtain r2' st2' where a': "conn_execute e' CreateTableDocuments st' = (r2', st2')"
    by (cases "conn_execute e' CreateTableDocuments st'")
  from conn_execute_agree [OF assms, of CreateTableDocuments] a a'
  have s2: "r2' = r2" "core st2 = core st2'" by (simp_all add: agree_def)
  obtain r3 st3 where b: "conn_execute e CreateTableAnalyses st2 = (r3, st3)"
    by (cases "conn_execute e CreateTableAnalyses st2")
  obtain r3' st3' where b': "conn_execute e' CreateTableAnalyses st2' = (r3', st3')"
    by (cases "conn_execute e' CreateTableAnalyses st2'")
  from conn_execute_agree [OF assms(1,2) s2(2), of CreateTableAnalyses] b b'
  have s3: "r3' = r3" "core st3 = core st3'" by (simp_all add: agree_def)
  obtain r4 st4 where c: "conn_execute e CreateIndexAnalyses st3 = (r4, st4)"
    by (cases "conn_execute e CreateIndexAnalyses st3")
  obtain r4' st4' where c': "conn_execute e' CreateIndexAnalyses st3' = (r4', st4')"
    by (cases "conn_execute e' CreateIndexAnalyses st3'")
  from conn_execute_agree [OF assms(1,2) s3(2), of CreateIndexAnalyses] c c'
  have s4: "r4' = r4" "core st4 = core st4'" by (simp_all add: agree_def)
  show ?thesis
    using a a' b b' c c' s2 s3 s4
    by (auto simp: create_schema_def agree_def split: sum.splits)
qed

lemma initialize_agree:
  assumes "e' = e\<lparr>text_dir := without_undecodable (text_dir e)\<rparr>" "core st = core st'"
  shows "agree (initialize e st) (initialize e' st')"
proof -
  have env: "session_id e' = session_id e" "db_fault e' = db_fault e"
    using assms(1) by simp_all
  obtain r4 st4 where a: "create_schema e st = (r4, st4)"
    by (cases "create_schema e st")
  obtain r4' st4' where a': "create_schema e' st' = (r4', st4')"
    by (cases "create_schema e' st'")
  from create_schema_agree [OF env assms(2)] a a'
  have s4: "r4' = r4" "core st4 = core st4'" by (simp_all add: agree_def)
  obtain r5 st5 where b: "load_corpus e st4 = (r5, st5)"
    by (cases "load_corpus e st4")
  obtain r5' st5' where b': "load_corpus e' st4' = (r5', st5')"
    by (cases "load_corpus e' st4'")
  from load_corpus_agree [OF assms(1) s4(2)] b b'
  have s5: "r5' = r5" "core st5 = core st5'" by (simp_all add: agree_def)
  obtain r6 st6 where c: "set_documents_sequence e st5 = (r6, st6)"
    by (cases "set_documents_sequence e st5")
  obtain r6' st6' where c': "set_documents_sequence e' st5' = (r6', st6')"
    by (cases "set_documents_sequence e' st5'")
  from set_documents_sequence_agree [OF env s5(2)] c c'
  have s6: "r6' = r6" "core st6 = core st6'" by (simp_all add: agree_def)
  show ?thesis
    using a a' b b' c c' s4 s5 s6
    by (auto simp: initialize_def agree_def split: sum.splits)
qed

lemma transaction_body_agree:
  assumes "e' = e\<lparr>text_dir := without_undecodable (text_dir e)\<rparr>" "core st = core st'"
  shows "agree (transaction_body e st) (transaction_body e' st')"
proof -
  let ?k = "TryAdvisoryLock DB_INIT_ADVISORY_LOCK_KEY"
  have env: "session_id e' = session_id e" "db_fault e' = db_fault e"
    using assms(1) by simp_all
  obtain r1 st1 where a: "conn_execute e ?k st = (r1, st1)"
    by (cases "conn_execute e ?k st")
  obtain r1' st1' where a': "conn_execute e' ?k st' = (r1', st1')"
    by (cases "conn_execute e' ?k st'")
  from conn_execute_agree [OF env assms(2), of ?k] a a'
  have s1: "r1' = r1" "core st1 = core st1'" by (simp_all add: agree_def)
  show ?thesis
  proof (cases r1)
    case (Inl err)
    with a a' s1 show ?thesis by (simp add: transaction_body_def agree_def)
  next
    case (Inr row)
    with a a' s1 initialize_agree [OF assms(1) s1(2)] show ?thesis
      by (simp add: transaction_body_def agree_def log_event_core)
  qed
qed


lemma one_bad_one_good:
  assumes "matches_txt bad" "matches_txt good" "bad \<noteq> good" "nul_free good" "nul_free c"
    and "db_fault e = None"
    and "text_dir e = Directory [(bad, RaisesUnicodeDecodeError), (good, Content c)]
         \<or> text_dir e = Directory [(good, Content c), (bad, RaisesUnicodeDecodeError)]"
  shows "fst (load_txt_files_to_db e (Some engine) fresh_store) = Inr PyNone
         \<and> documents (fst (snd (load_txt_files_to_db e (Some engine) fresh_store)))
             = Some \<lparr>doc_rows = [(1, good, c)], doc_id_seq = \<lparr>last_value = 1, is_called = True\<rparr>\<rparr>
         \<and> length (filter is_upsert (snd (snd (load_txt_files_to_db e (Some engine) fresh_store)))) = 1
         \<and> LogWarning (SkippingNonUtf8 bad) \<in> set (snd (snd (load_txt_files_to_db e (Some engine) fresh_store)))"
proof -
  have srt: "sorted_files (text_dir e) = [(bad, RaisesUnicodeDecodeError), (good, Content c)]
             \<or> sorted_files (text_dir e) = [(good, Content c), (bad, RaisesUnicodeDecodeError)]"
  proof (cases "bad \<le> good")
    case True
    with assms(3) have "\<not> good \<le> bad" by auto
    with True assms(1,2,7) show ?thesis by (auto simp: sorted_files_def glob_txt_def)
  next
    case False
    then have "good \<le> bad" by auto
    with False assms(1,2,7) show ?thesis by (auto simp: sorted_files_def glob_txt_def)
  qed
  have dir: "path_exists (text_dir e)" "path_is_dir (text_dir e)"
    using assms(7) by (auto simp: path_exists_def path_is_dir_def)
  from srt show ?thesis
  proof
    assume a: "sorted_files (text_dir e) = [(bad, RaisesUnicodeDecodeError), (good, Content c)]"
    show ?thesis
      using assms(3-6) dir a
      by (simp add: load_txt_files_to_db_def begin_transaction_def transaction_body_def
            initialize_def create_schema_def conn_execute_def pg_exec_def try_advisory_lock_def
            locked_of_def load_corpus_def log_event_def upsert_document_def nextval_def
            new_sequence_def seq_max_def seq_min_def set_documents_sequence_def select_max_id_def
            max_id_of_def setval_def row_id_def row_filename_def fresh_store_def nul_free_def)
  next
    assume a: "sorted_files (text_dir e) = [(good, Content c), (bad, RaisesUnicodeDecodeError)]"
    show ?thesis
      using assms(3-6) dir a
      by (simp add: load_txt_files_to_db_def begin_transaction_def transaction_body_def
            initialize_def create_schema_def conn_execute_def pg_exec_def try_advisory_lock_def
            locked_of_def load_corpus_def log_event_def upsert_document_def nextval_def
            new_sequence_def seq_max_def seq_min_def set_documents_sequence_def select_max_id_def
            max_id_of_def setval_def row_id_def row_filename_def fresh_store_def nul_free_def)
  qed
qed

text \<open>
  C5. A file that fails to decode is skipped with a warning and the loop goes on
  with the next file; such files change neither the outcome of
  \<open>load_txt_files_to_db\<close> nor the store it leaves: both are what they would be
  without them in the directory. Over a directory with one file that fails to
  decode and one valid file (it decodes, and neither its name nor its text has
  the character NUL, which the store refuses), on a new store, the call returns
  normally, the table has the valid file as its only document, one upsert was
  run and the warning was logged.
\<close>

theorem undecodable_files_are_skipped:
  "load_files e ((name, RaisesUnicodeDecodeError) # fs) st
     = load_files e fs (log_event (LogWarning (SkippingNonUtf8 name)) st)
   \<and> fst (load_txt_files_to_db e engine s)
       = fst (load_txt_files_to_db (e\<lparr>text_dir := without_undecodable (text_dir e)\<rparr>) engine s)
   \<and> fst (snd (load_txt_files_to_db e engine s))
       = fst (snd (load_txt_files_to_db (e\<lparr>text_dir := without_undecodable (text_dir e)\<rparr>) engine s))
   \<and> (matches_txt bad \<and> matches_txt good \<and> bad \<noteq> good \<and> nul_free good \<and> nul_free c
        \<and> db_fault e = None
        \<and> (text_dir e = Directory [(bad, RaisesUnicodeDecodeError), (good, Content c)]
            \<or> text_dir e = Directory [(good, Content c), (bad, RaisesUnicodeDecodeError)])
      \<longrightarrow> fst (load_txt_files_to_db e (Some a) fresh_store) = Inr PyNone
          \<and> documents (fst (snd (load_txt_files_to_db e (Some a) fresh_store)))
              = Some \<lparr>doc_rows = [(1, good, c)], doc_id_seq = \<lparr>last_value = 1, is_called = True\<rparr>\<rparr>
          \<and> length (filter is_upsert (snd (snd (load_txt_files_to_db e (Some a) fresh_store)))) = 1
          \<and> LogWarning (SkippingNonUtf8 bad) \<in> set (snd (snd (load_txt_files_to_db e (Some a) fresh_store))))"
proof -
  let ?e = "e\<lparr>text_dir := without_undecodable (text_dir e)\<rparr>"
  have skip: "load_files e ((name, RaisesUnicodeDecodeError) # fs) st
                = load_files e fs (log_event (LogWarning (SkippingNonUtf8 name)) st)"
    by simp
  have same: "fst (load_txt_files_to_db e engine s) = fst (load_txt_files_to_db ?e engine s)
              \<and> fst (snd (load_txt_files_to_db e engine s)) = fst (snd (load_txt_files_to_db ?e engine s))"
  proof (cases engine)
    case None
    then show ?thesis by (simp add: load_txt_files_to_db_def)
  next
    case (Some x)
    obtain r st where b: "transaction_body e (begin_transaction s) = (r, st)"
      by (cases "transaction_body e (begin_transaction s)")
    obtain r' st' where b': "transaction_body ?e (begin_transaction s) = (r', st')"
      by (cases "transaction_body ?e (begin_transaction s)")
    from transaction_body_agree [of ?e e "begin_transaction s" "begin_transaction s"] b b'
    have "r' = r" "cur st' = cur st" by (simp_all add: agree_def core_def)
    with Some b b' show ?thesis
      by (simp add: load_txt_files_to_db_def split: sum.splits body_exit.splits)
  qed
  from skip same one_bad_one_good [of bad good c e a] show ?thesis by blast
qed

theorem undecodable_files_are_skipped_witness:
  "matches_txt ''bad.txt'' \<and> matches_txt ''good.txt'' \<and> ''bad.txt'' \<noteq> ''good.txt''
   \<and> nul_free ''good.txt'' \<and> nul_free ''hello'' \<and> db_fault (env_of dir_bad_and_good) = None
   \<and> text_dir (env_of dir_bad_and_good)
       = Directory [(''bad.txt'', RaisesUnicodeDecodeError), (''good.txt'', Content ''hello'')]
   \<and> fst (load_txt_files_to_db (env_of dir_bad_and_good) (Some some_engine) fresh_store) = Inr PyNone
   \<and> documents (fst (snd (load_txt_files_to_db (env_of dir_bad_and_good) (Some some_engine) fresh_store)))
       = Some \<lparr>doc_rows = [(1, ''good.txt'', ''hello'')],
               doc_id_seq = \<lparr>last_value = 1, is_called = True\<rparr>\<rparr>
   \<and> length (filter is_upsert
        (snd (snd (load_txt_files_to_db (env_of dir_bad_and_good) (Some some_engine) fresh_store)))) = 1
   \<and> LogWarning (SkippingNonUtf8 ''bad.txt'')
       \<in> set (snd (snd (load_txt_files_to_db (env_of dir_bad_and_good) (Some some_engine) fresh_store)))
"
proof -
  have h: "matches_txt ''bad.txt''" "matches_txt ''good.txt''" "''bad.txt'' \<noteq> ''good.txt''"
    "nul_free ''good.txt''" "nul_free ''hello''" "db_fault (env_of dir_bad_and_good) = None"
    "text_dir (env_of dir_bad_and_good)
       = Directory [(''bad.txt'', RaisesUnicodeDecodeError), (''good.txt'', Content ''hello'')]"
    by (simp_all add: matches_txt_def nul_free_def env_of_def dir_bad_and_good_def)
  note t = undecodable_files_are_skipped
    [of "env_of dir_bad_and_good" "''x''" "[]" "begin_transaction fresh_store" "Some some_engine"
        fresh_store "''bad.txt''" "''good.txt''" "''hello''" some_engine]
  from h t [THEN conjunct2, THEN conjunct2, THEN conjunct2] show ?thesis by simp
qed

section \<open>Reloading the corpus\<close>

section \<open>What an upsert does to the rows\<close>

lemma row_eta: "(row_id r, row_filename r, row_content r) = r"
  by (simp add: row_id_def row_filename_def row_content_def)

lemma upsert_document_rows:
  assumes "upsert_document fn c t = (Inr u, t')"
  shows "nul_free fn \<and> nul_free c
         \<and> (\<exists>v. doc_rows t' =
               (if fn \<in> set (map row_filename (doc_rows t))
                then map (\<lambda>r. if row_filename r = fn then (row_id r, fn, c) else r) (doc_rows t)
                else doc_rows t @ [(v, fn, c)]))"
  using assms
  by (auto simp: upsert_document_def nul_free_def split: if_splits sum.splits)

lemma upsert_document_has_content:
  assumes "upsert_document fn c t = (Inr u, t')"
  shows "has_content fn c (doc_rows t')"
proof -
  from upsert_document_rows [OF assms] obtain v where
    r: "doc_rows t' =
          (if fn \<in> set (map row_filename (doc_rows t))
           then map (\<lambda>r. if row_filename r = fn then (row_id r, fn, c) else r) (doc_rows t)
           else doc_rows t @ [(v, fn, c)])" by blast
  show ?thesis
  proof (cases "fn \<in> set (map row_filename (doc_rows t))")
    case True
    with r show ?thesis
      by (auto simp: has_content_def list_all_iff row_filename_def row_content_def image_iff)
  next
    case False
    with r show ?thesis
      by (auto simp: has_content_def list_all_iff row_filename_def row_content_def)
  qed
qed

lemma upsert_document_keeps_content:
  assumes "upsert_document fn c t = (Inr u, t')" "m \<noteq> fn" "has_content m c' (doc_rows t)"
  shows "has_content m c' (doc_rows t')"
proof -
  from upsert_document_rows [OF assms(1)] obtain v where
    r: "doc_rows t' =
          (if fn \<in> set (map row_filename (doc_rows t))
           then map (\<lambda>r. if row_filename r = fn then (row_id r, fn, c) else r) (doc_rows t)
           else doc_rows t @ [(v, fn, c)])" by blast
  show ?thesis
  proof (cases "fn \<in> set (map row_filename (doc_rows t))")
    case True
    with r assms(2,3) show ?thesis
      by (auto simp: has_content_def list_all_iff row_filename_def row_content_def image_iff)
  next
    case False
    with r assms(2,3) show ?thesis
      by (auto simp: has_content_def list_all_iff row_filename_def row_content_def)
  qed
qed

lemma upsert_document_other_rows:
  assumes "upsert_document fn c t = (Inr u, t')" "fn \<in> N"
  shows "filter (\<lambda>r. row_filename r \<notin> N) (doc_rows t') = filter (\<lambda>r. row_filename r \<notin> N) (doc_rows t)"
proof -
  from upsert_document_rows [OF assms(1)] obtain v where
    r: "doc_rows t' =
          (if fn \<in> set (map row_filename (doc_rows t))
           then map (\<lambda>r. if row_filename r = fn then (row_id r, fn, c) else r) (doc_rows t)
           else doc_rows t @ [(v, fn, c)])" by blast
  have m: "filter (\<lambda>r. row_filename r \<notin> N)
             (map (\<lambda>r. if row_filename r = fn then (row_id r, fn, c) else r) rows)
           = filter (\<lambda>r. row_filename r \<notin> N) rows" for rows
    using assms(2) by (induction rows) (auto simp: row_filename_def)
  from r m assms(2) show ?thesis
    by (auto simp: row_filename_def)
qed

lemma upsert_document_again:
  assumes "nul_free fn" "nul_free c" "has_content fn c (doc_rows t)"
    and "last_value (doc_id_seq t) + 1 \<le> seq_max"
  shows "\<exists>t'. upsert_document fn c t = (Inr (), t') \<and> doc_rows t' = doc_rows t
              \<and> last_value (doc_id_seq t') \<le> last_value (doc_id_seq t) + 1"
proof -
  have same: "map (\<lambda>r. if row_filename r = fn then (row_id r, fn, c) else r) (doc_rows t) = doc_rows t"
  proof (rule map_idI)
    fix r assume "r \<in> set (doc_rows t)"
    with assms(3) have "row_filename r = fn \<Longrightarrow> row_content r = c"
      by (simp add: has_content_def list_all_iff)
    then show "(if row_filename r = fn then (row_id r, fn, c) else r) = r"
      using row_eta [of r] by auto
  qed
  from assms(3) have "fn \<in> set (map row_filename (doc_rows t))" by (simp add: has_content_def)
  with assms(1,2,4) same show ?thesis
    by (auto simp: upsert_document_def nul_free_def nextval_def)
qed


lemma map_sum_Inr: "map_sum g h x = Inr y \<Longrightarrow> \<exists>u. x = Inr u"
  by (cases x) auto

lemma conn_execute_upsert_done:
  assumes "conn_execute e (UpsertDocument fn c) st = (Inr row, st1)"
  shows "\<exists>t t1. documents (cur st) = Some t \<and> documents (cur st1) = Some t1
                \<and> upsert_document fn c t = (Inr (), t1)"
  using assms
  by (auto simp: conn_execute_def pg_exec_def Let_def dest!: map_sum_Inr
           split: if_splits option.splits prod.splits)

lemma conn_execute_upsert_again:
  assumes "db_fault e = None" "documents (cur st) = Some t"
    and "nul_free fn" "nul_free c" "has_content fn c (doc_rows t)"
    and "last_value (doc_id_seq t) + 1 \<le> seq_max"
  shows "\<exists>row st1 t1. conn_execute e (UpsertDocument fn c) st = (Inr row, st1)
           \<and> documents (cur st1) = Some t1 \<and> doc_rows t1 = doc_rows t
           \<and> last_value (doc_id_seq t1) \<le> last_value (doc_id_seq t) + 1"
proof -
  from upsert_document_again [OF assms(3-6)] obtain t' where
    "upsert_document fn c t = (Inr (), t')" "doc_rows t' = doc_rows t"
    "last_value (doc_id_seq t') \<le> last_value (doc_id_seq t) + 1" by blast
  with assms(1,2) show ?thesis
    by (simp add: conn_execute_def pg_exec_def Let_def)
qed

section \<open>What a load does to the rows\<close>

lemma load_files_keeps_content:
  "load_files e fs st = (Inr u, st1) \<Longrightarrow> n \<notin> set (map fst fs) \<Longrightarrow>
   documents (cur st) = Some t \<Longrightarrow> has_content n c (doc_rows t) \<Longrightarrow>
   \<exists>t1. documents (cur st1) = Some t1 \<and> has_content n c (doc_rows t1)"
proof (induction fs arbitrary: st t)
  case Nil
  then show ?case by simp
next
  case (Cons f fs)
  from Cons.prems(2) have nf: "n \<noteq> fst f" and nfs: "n \<notin> set (map fst fs)" by auto
  show ?case
  proof (cases "snd f")
    case (Content content)
    obtain r1 st1' where ex: "conn_execute e (UpsertDocument (fst f) content) st = (r1, st1')"
      by (cases "conn_execute e (UpsertDocument (fst f) content) st")
    show ?thesis
    proof (cases r1)
      case (Inl err)
      with Content ex Cons.prems(1) show ?thesis by simp
    next
      case (Inr row)
      with Content ex Cons.prems(1) have rest: "load_files e fs st1' = (Inr u, st1)" by simp
      from conn_execute_upsert_done [of e "fst f" content st row st1'] ex Inr Cons.prems(3)
      obtain t1 where d1: "documents (cur st1') = Some t1"
        and up: "upsert_document (fst f) content t = (Inr (), t1)" by auto
      from upsert_document_keeps_content [OF up nf Cons.prems(4)]
      have "has_content n c (doc_rows t1)" .
      from Cons.IH [OF rest nfs d1 this] show ?thesis .
    qed
  next
    case RaisesUnicodeDecodeError
    let ?st = "log_event (LogWarning (SkippingNonUtf8 (fst f))) st"
    from RaisesUnicodeDecodeError Cons.prems(1) have rest: "load_files e fs ?st = (Inr u, st1)"
      by simp
    have d: "documents (cur ?st) = Some t" using Cons.prems(3) by (simp add: log_event_def)
    from Cons.IH [OF rest nfs d Cons.prems(4)] show ?thesis .
  next
    case RaisesOSError
    with Cons.prems(1) show ?thesis by simp
  qed
qed

lemma load_files_loaded_as:
  "load_files e fs st = (Inr u, st1) \<Longrightarrow> distinct (map fst fs) \<Longrightarrow>
   loaded_as fs (cur st1) \<and> texts_nul_free fs"
proof (induction fs arbitrary: st)
  case Nil
  then show ?case by (simp add: loaded_as_def texts_nul_free_def)
next
  case (Cons f fs)
  from Cons.prems(2) have nfs: "fst f \<notin> set (map fst fs)" and dis: "distinct (map fst fs)"
    by auto
  show ?case
  proof (cases "snd f")
    case (Content content)
    obtain r1 st1' where ex: "conn_execute e (UpsertDocument (fst f) content) st = (r1, st1')"
      by (cases "conn_execute e (UpsertDocument (fst f) content) st")
    show ?thesis
    proof (cases r1)
      case (Inl err)
      with Content ex Cons.prems(1) show ?thesis by simp
    next
      case (Inr row)
      with Content ex Cons.prems(1) have rest: "load_files e fs st1' = (Inr u, st1)" by simp
      from conn_execute_upsert_done [of e "fst f" content st row st1'] ex Inr
      obtain t t1 where d1: "documents (cur st1') = Some t1"
        and up: "upsert_document (fst f) content t = (Inr (), t1)" by auto
      from upsert_document_rows [OF up] have nul: "nul_free (fst f)" "nul_free content" by simp_all
      from upsert_document_has_content [OF up] have "has_content (fst f) content (doc_rows t1)" .
      from load_files_keeps_content [OF rest nfs d1 this] obtain t2 where
        "documents (cur st1) = Some t2" "has_content (fst f) content (doc_rows t2)" by blast
      with Cons.IH [OF rest dis] Content nul show ?thesis
        by (simp add: loaded_as_def file_loaded_def texts_nul_free_def rows_of_def)
    qed
  next
    case RaisesUnicodeDecodeError
    let ?st = "log_event (LogWarning (SkippingNonUtf8 (fst f))) st"
    from RaisesUnicodeDecodeError Cons.prems(1) have rest: "load_files e fs ?st = (Inr u, st1)"
      by simp
    from Cons.IH [OF rest dis] RaisesUnicodeDecodeError show ?thesis
      by (simp add: loaded_as_def file_loaded_def texts_nul_free_def)
  next
    case RaisesOSError
    with Cons.prems(1) show ?thesis by simp
  qed
qed

lemma load_files_other_rows:
  "load_files e fs st = (Inr u, st1) \<Longrightarrow> set (map fst fs) \<subseteq> set (map fst gs) \<Longrightarrow>
   other_rows gs (cur st1) = other_rows gs (cur st)"
proof (induction fs arbitrary: st)
  case Nil
  then show ?case by simp
next
  case (Cons f fs)
  from Cons.prems(2) have hd_in: "fst f \<in> set (map fst gs)"
    and tl_in: "set (map fst fs) \<subseteq> set (map fst gs)" by auto
  show ?case
  proof (cases "snd f")
    case (Content content)
    obtain r1 st1' where ex: "conn_execute e (UpsertDocument (fst f) content) st = (r1, st1')"
      by (cases "conn_execute e (UpsertDocument (fst f) content) st")
    show ?thesis
    proof (cases r1)
      case (Inl err)
      with Content ex Cons.prems(1) show ?thesis by simp
    next
      case (Inr row)
      with Content ex Cons.prems(1) have rest: "load_files e fs st1' = (Inr u, st1)" by simp
      from conn_execute_upsert_done [of e "fst f" content st row st1'] ex Inr
      obtain t t1 where d0: "documents (cur st) = Some t" and d1: "documents (cur st1') = Some t1"
        and up: "upsert_document (fst f) content t = (Inr (), t1)" by auto
      from upsert_document_other_rows [OF up hd_in] d0 d1
      have "other_rows gs (cur st1') = other_rows gs (cur st)"
        by (simp add: other_rows_def rows_of_def)
      with Cons.IH [OF rest tl_in] show ?thesis by simp
    qed
  next
    case RaisesUnicodeDecodeError
    let ?st = "log_event (LogWarning (SkippingNonUtf8 (fst f))) st"
    from RaisesUnicodeDecodeError Cons.prems(1) have rest: "load_files e fs ?st = (Inr u, st1)"
      by simp
    from Cons.IH [OF rest tl_in] show ?thesis by (simp add: log_event_def)
  next
    case RaisesOSError
    with Cons.prems(1) show ?thesis by simp
  qed
qed

lemma load_files_again:
  assumes "db_fault e = None"
  shows "texts_nul_free fs \<Longrightarrow> \<not> raises_oserror fs \<Longrightarrow> loaded_as fs (cur st) \<Longrightarrow>
         seq_room (cur st) (length fs) \<Longrightarrow>
         \<exists>st2. load_files e fs st = (Inr (), st2) \<and> rows_of (cur st2) = rows_of (cur st)"
proof (induction fs arbitrary: st)
  case Nil
  then show ?case by simp
next
  case (Cons f fs)
  from Cons.prems(1) have nul: "texts_nul_free fs" by (simp add: texts_nul_free_def)
  from Cons.prems(2) have nos: "\<not> raises_oserror fs" by (simp add: raises_oserror_def)
  from Cons.prems(3) have la: "loaded_as fs (cur st)" by (simp add: loaded_as_def)
  show ?case
  proof (cases "snd f")
    case (Content content)
    from Cons.prems(1) Content have n1: "nul_free (fst f)" "nul_free content"
      by (simp_all add: texts_nul_free_def)
    from Cons.prems(3) Content obtain t where d: "documents (cur st) = Some t"
      and hc: "has_content (fst f) content (doc_rows t)"
      by (auto simp: loaded_as_def file_loaded_def rows_of_def split: option.splits)
    from Cons.prems(4) d have room1: "last_value (doc_id_seq t) + 1 \<le> seq_max"
      and roomn: "last_value (doc_id_seq t) + 1 + int (length fs) \<le> seq_max"
      by (simp_all add: seq_room_def)
    from conn_execute_upsert_again [OF assms d n1 hc room1] obtain row st1 t1 where
      ex: "conn_execute e (UpsertDocument (fst f) content) st = (Inr row, st1)"
      and d1: "documents (cur st1) = Some t1" and same: "doc_rows t1 = doc_rows t"
      and lv: "last_value (doc_id_seq t1) \<le> last_value (doc_id_seq t) + 1" by blast
    from d d1 same have rows: "rows_of (cur st1) = rows_of (cur st)" by (simp add: rows_of_def)
    with la have la1: "loaded_as fs (cur st1)" by (simp add: loaded_as_def)
    from roomn lv d1 have room: "seq_room (cur st1) (length fs)" by (simp add: seq_room_def)
    from Cons.IH [OF nul nos la1 room] rows Content ex show ?thesis by simp
  next
    case RaisesUnicodeDecodeError
    let ?st = "log_event (LogWarning (SkippingNonUtf8 (fst f))) st"
    have c: "cur ?st = cur st" by (simp add: log_event_def)
    from la c have la1: "loaded_as fs (cur ?st)" by simp
    from Cons.prems(4) c have room: "seq_room (cur ?st) (length fs)"
      by (auto simp: seq_room_def split: option.splits)
    from Cons.IH [OF nul nos la1 room] c RaisesUnicodeDecodeError show ?thesis by simp
  next
    case RaisesOSError
    with Cons.prems(2) show ?thesis by (simp add: raises_oserror_def)
  qed
qed


lemma distinct_map_sort_key: "distinct (map f (sort_key k xs)) = distinct (map f xs)"
  by (simp add: distinct_map)

text \<open>
  C4, as amended. When the corpus step has succeeded over a directory (whose
  entries have distinct names), running it again over the same directory
  succeeds too, provided the store does not fail and the generator has a value
  left for each file, and leaves the rows of \<open>documents\<close> exactly as they were: no
  new row, no id changed. After the step every matching file that decoded is in
  the table under its name with its content. Rows under other filenames are kept
  as they were before the step, so the table after a load depends on what was
  in it before.
\<close>

theorem corpus_reload_is_idempotent:
  assumes "load_corpus e st = (Inr u, st1)"
    and "db_fault e = None"
    and "distinct (map fst (glob_txt (text_dir e)))"
    and "seq_room (cur st1) (length (glob_txt (text_dir e)))"
  shows "(\<exists>st2. load_corpus e st1 = (Inr (), st2) \<and> rows_of (cur st2) = rows_of (cur st1))
         \<and> loaded_as (glob_txt (text_dir e)) (cur st1)
         \<and> other_rows (glob_txt (text_dir e)) (cur st1) = other_rows (glob_txt (text_dir e)) (cur st)"
proof (cases "path_exists (text_dir e) \<and> path_is_dir (text_dir e)")
  case True
  let ?fs = "sorted_files (text_dir e)"
  from True assms(1) have first: "load_files e ?fs st = (Inr u, st1)"
    by (simp add: load_corpus_def)
  have dis: "distinct (map fst ?fs)"
    using assms(3) by (simp add: sorted_files_def distinct_map_sort_key)
  from load_files_loaded_as [OF first dis] have la: "loaded_as ?fs (cur st1)"
    and nul: "texts_nul_free ?fs" by simp_all
  from load_files_ok_no_oserror [OF first] have nos: "\<not> raises_oserror ?fs" .
  from assms(4) have room: "seq_room (cur st1) (length ?fs)" by (simp add: sorted_files_def)
  from load_files_again [OF assms(2) nul nos la room] True
  have again: "\<exists>st2. load_corpus e st1 = (Inr (), st2) \<and> rows_of (cur st2) = rows_of (cur st1)"
    by (simp add: load_corpus_def)
  from la have la': "loaded_as (glob_txt (text_dir e)) (cur st1)"
    by (simp add: loaded_as_def list_all_iff sorted_files_def)
  have "set (map fst ?fs) \<subseteq> set (map fst (glob_txt (text_dir e)))"
    by (simp add: sorted_files_def)
  from load_files_other_rows [OF first this]
  have "other_rows (glob_txt (text_dir e)) (cur st1) = other_rows (glob_txt (text_dir e)) (cur st)" .
  with again la' show ?thesis by simp
next
  case False
  then have g: "glob_txt (text_dir e) = []"
    by (cases "text_dir e") (simp_all add: glob_txt_def path_exists_def path_is_dir_def)
  from False assms(1) have c: "cur st1 = cur st"
    by (auto simp: load_corpus_def log_event_def)
  from False have "\<exists>st2. load_corpus e st1 = (Inr (), st2) \<and> rows_of (cur st2) = rows_of (cur st1)"
    by (auto simp: load_corpus_def log_event_def)
  with g c show ?thesis by (simp add: loaded_as_def)
qed

theorem corpus_reload_is_idempotent_witness:
  "load_corpus (env_of dir_a) (begin_transaction empty_tables_store)
     = (Inr (), snd (load_corpus (env_of dir_a) (begin_transaction empty_tables_store)))
   \<and> db_fault (env_of dir_a) = None
   \<and> distinct (map fst (glob_txt (text_dir (env_of dir_a))))
   \<and> seq_room (cur (snd (load_corpus (env_of dir_a) (begin_transaction empty_tables_store))))
        (length (glob_txt (text_dir (env_of dir_a))))
   \<and> rows_of (cur (snd (load_corpus (env_of dir_a) (begin_transaction empty_tables_store))))
       = Some [(1, ''a.txt'', ''A'')]
   \<and> (\<exists>st2. load_corpus (env_of dir_a) (snd (load_corpus (env_of dir_a) (begin_transaction empty_tables_store)))
              = (Inr (), st2)
            \<and> rows_of (cur st2) = Some [(1, ''a.txt'', ''A'')])
   \<and> loaded_as (glob_txt (text_dir (env_of dir_a)))
        (cur (snd (load_corpus (env_of dir_a) (begin_transaction empty_tables_store))))"
proof -
  let ?st1 = "snd (load_corpus (env_of dir_a) (begin_transaction empty_tables_store))"
  have a: "load_corpus (env_of dir_a) (begin_transaction empty_tables_store) = (Inr (), ?st1)"
    by (simp add: eval_defs input_defs)
  have b: "db_fault (env_of dir_a) = None"
    by (simp add: env_of_def)
  have c: "distinct (map fst (glob_txt (text_dir (env_of dir_a))))"
    by (simp add: eval_defs input_defs)
  have d: "seq_room (cur ?st1) (length (glob_txt (text_dir (env_of dir_a))))"
    by (simp add: seq_room_def eval_defs input_defs)
  have r: "rows_of (cur ?st1) = Some [(1, ''a.txt'', ''A'')]"
    by (simp add: rows_of_def eval_defs input_defs)
  from corpus_reload_is_idempotent [OF a b c d] a b c d r show ?thesis by simp
qed

text \<open>
  C4 as stated fails in its second half: the table after a load over a directory
  with only \<open>b.txt\<close> depends on what was loaded before. From an empty store it has
  one row; after an earlier load over a directory with \<open>a.txt\<close> it has two.
\<close>

theorem earlier_load_shows_in_final_table:
  "map_option doc_rows (documents (fst (snd (load_txt_files_to_db (env_of dir_b) (Some some_engine) fresh_store))))
     = Some [(1, ''b.txt'', ''B'')]
   \<and> map_option doc_rows (documents (fst (snd (load_txt_files_to_db (env_of dir_b) (Some some_engine)
        (fst (snd (load_txt_files_to_db (env_of dir_a) (Some some_engine) fresh_store)))))))
     = Some [(1, ''a.txt'', ''A''), (2, ''b.txt'', ''B'')]"
  by (simp add: eval_defs input_defs)

section \<open>Failure inside the transaction\<close>

lemma stmts_of_append: "stmts_of (a @ b) = stmts_of a @ stmts_of b"
  by (induction a rule: stmts_of.induct) simp_all

lemma run_statements_snoc:
  "run_statements e (qs @ [q]) st =
     (case run_statements e qs st of
        (Inl err, st1) \<Rightarrow> (Inl err, st1)
      | (Inr u, st1) \<Rightarrow>
          (case conn_execute e q st1 of
             (Inl err, st2) \<Rightarrow> (Inl err, st2)
           | (Inr v, st2) \<Rightarrow> (Inr (), st2)))"
proof (induction qs arbitrary: st)
  case Nil
  show ?case by (simp split: prod.splits sum.splits)
next
  case (Cons a qs)
  show ?case
  proof (cases "conn_execute e a st")
    case (Pair r st1)
    then show ?thesis using Cons.IH [of st1] by (cases r) simp_all
  qed
qed

lemma statements_ok_begin: "statements_ok e s (begin_transaction s)"
  by (simp add: statements_ok_def begin_transaction_def)

lemma statements_ok_log:
  "statements_ok e s st \<Longrightarrow> statements_ok e s (log_event (LogWarning m) st)"
  "statements_ok e s st \<Longrightarrow> statements_ok e s (log_event (LogInfo m) st)"
  by (simp_all add: statements_ok_def log_event_def stmts_of_append core_def)

lemma conn_execute_replays:
  assumes "statements_ok e s st"
  shows "replays e s (conn_execute e q st)"
proof -
  from assms obtain st' where
    run: "run_statements e (stmts_of (trace st)) (begin_transaction s) = (Inr (), st')"
    and c: "core st' = core st" by (auto simp: statements_ok_def)
  obtain r st1 where ex: "conn_execute e q st = (r, st1)" by (cases "conn_execute e q st")
  obtain r' st1' where ex': "conn_execute e q st' = (r', st1')" by (cases "conn_execute e q st'")
  from conn_execute_agree [of e e st' st q] c ex ex'
  have same: "r' = r" "core st1' = core st1" by (simp_all add: agree_def)
  have tr: "stmts_of (trace st1) = stmts_of (trace st) @ [q]"
    using conn_execute_trace [of e q st] ex by (simp add: stmts_of_append)
  show ?thesis
  proof (cases r)
    case (Inl err)
    with run ex ex' same tr show ?thesis
      by (simp add: replays_def statement_failed_def run_statements_snoc)
  next
    case (Inr v)
    with run ex ex' same tr show ?thesis
      by (simp add: replays_def statements_ok_def run_statements_snoc)
  qed
qed

lemma load_files_replays:
  "statements_ok e s st \<Longrightarrow> replays e s (load_files e fs st)"
proof (induction fs arbitrary: st)
  case Nil
  then show ?case by (simp add: replays_def)
next
  case (Cons f fs)
  show ?case
  proof (cases "snd f")
    case (Content content)
    obtain r1 st1 where ex: "conn_execute e (UpsertDocument (fst f) content) st = (r1, st1)"
      by (cases "conn_execute e (UpsertDocument (fst f) content) st")
    from conn_execute_replays [OF Cons.prems, of "UpsertDocument (fst f) content"] ex
    have rp: "replays e s (r1, st1)" by simp
    show ?thesis
    proof (cases r1)
      case (Inl err)
      with Content ex rp show ?thesis by (simp add: replays_def)
    next
      case (Inr v)
      with rp have "statements_ok e s st1" by (simp add: replays_def)
      from Cons.IH [OF this] Content ex Inr show ?thesis by simp
    qed
  next
    case RaisesUnicodeDecodeError
    have "statements_ok e s (log_event (LogWarning (SkippingNonUtf8 (fst f))) st)"
      using Cons.prems by (rule statements_ok_log)
    from Cons.IH [OF this] RaisesUnicodeDecodeError show ?thesis by simp
  next
    case RaisesOSError
    with Cons.prems show ?thesis by (simp add: replays_def)
  qed
qed

lemma load_corpus_replays:
  "statements_ok e s st \<Longrightarrow> replays e s (load_corpus e st)"
  using load_files_replays [of e s st "sorted_files (text_dir e)"]
        statements_ok_log(1) [of e s st TextDirMissing]
  by (simp add: load_corpus_def replays_def)

lemma set_documents_sequence_replays:
  assumes "statements_ok e s st"
  shows "replays e s (set_documents_sequence e st)"
proof -
  obtain r1 st1 where a: "conn_execute e SelectMaxId st = (r1, st1)"
    by (cases "conn_execute e SelectMaxId st")
  from conn_execute_replays [OF assms, of SelectMaxId] a have rp1: "replays e s (r1, st1)" by simp
  show ?thesis
  proof (cases r1)
    case (Inl err)
    with a rp1 show ?thesis by (simp add: set_documents_sequence_def replays_def)
  next
    case (Inr row)
    with rp1 have ok1: "statements_ok e s st1" by (simp add: replays_def)
    obtain r2 st2 where b: "conn_execute e (SetvalDocuments (max_id_of row)) st1 = (r2, st2)"
      by (cases "conn_execute e (SetvalDocuments (max_id_of row)) st1")
    from conn_execute_replays [OF ok1, of "SetvalDocuments (max_id_of row)"] b
    have "replays e s (r2, st2)" by simp
    with a b Inr show ?thesis
      by (cases r2) (simp_all add: set_documents_sequence_def replays_def)
  qed
qed

lemma create_schema_replays:
  assumes "statements_ok e s st"
  shows "replays e s (create_schema e st)"
proof -
  obtain r2 st2 where a: "conn_execute e CreateTableDocuments st = (r2, st2)"
    by (cases "conn_execute e CreateTableDocuments st")
  from conn_execute_replays [OF assms, of CreateTableDocuments] a
  have rp2: "replays e s (r2, st2)" by simp
  show ?thesis
  proof (cases r2)
    case (Inl err)
    with a rp2 show ?thesis by (simp add: create_schema_def replays_def)
  next
    case r2ok: (Inr v2)
    with rp2 have ok2: "statements_ok e s st2" by (simp add: replays_def)
    obtain r3 st3 where b: "conn_execute e CreateTableAnalyses st2 = (r3, st3)"
      by (cases "conn_execute e CreateTableAnalyses st2")
    from conn_execute_replays [OF ok2, of CreateTableAnalyses] b
    have rp3: "replays e s (r3, st3)" by simp
    show ?thesis
    proof (cases r3)
      case (Inl err)
      with a b r2ok rp3 show ?thesis by (simp add: create_schema_def replays_def)
    next
      case r3ok: (Inr v3)
      with rp3 have ok3: "statements_ok e s st3" by (simp add: replays_def)
      obtain r4 st4 where c: "conn_execute e CreateIndexAnalyses st3 = (r4, st4)"
        by (cases "conn_execute e CreateIndexAnalyses st3")
      from conn_execute_replays [OF ok3, of CreateIndexAnalyses] c
      have "replays e s (r4, st4)" by simp
      with a b c r2ok r3ok show ?thesis
        by (cases r4) (simp_all add: create_schema_def replays_def)
    qed
  qed
qed

lemma initialize_replays:
  assumes "statements_ok e s st"
  shows "replays e s (initialize e st)"
proof -
  obtain r4 st4 where a: "create_schema e st = (r4, st4)" by (cases "create_schema e st")
  from create_schema_replays [OF assms] a have rp4: "replays e s (r4, st4)" by simp
  show ?thesis
  proof (cases r4)
    case (Inl err)
    with a rp4 show ?thesis by (simp add: initialize_def replays_def)
  next
    case r4ok: (Inr v4)
    with rp4 have ok4: "statements_ok e s st4" by (simp add: replays_def)
    obtain r5 st5 where b: "load_corpus e st4 = (r5, st5)" by (cases "load_corpus e st4")
    from load_corpus_replays [OF ok4] b have rp5: "replays e s (r5, st5)" by simp
    show ?thesis
    proof (cases r5)
      case (Inl err)
      with a b r4ok rp5 show ?thesis by (simp add: initialize_def replays_def)
    next
      case r5ok: (Inr v5)
      with rp5 have ok5: "statements_ok e s st5" by (simp add: replays_def)
      obtain r6 st6 where c: "set_documents_sequence e st5 = (r6, st6)"
        by (cases "set_documents_sequence e st5")
      from set_documents_sequence_replays [OF ok5] c have "replays e s (r6, st6)" by simp
      with a b c r4ok r5ok show ?thesis
        by (cases r6) (simp_all add: initialize_def replays_def)
    qed
  qed
qed

lemma transaction_body_replays:
  "replays e s (transaction_body e (begin_transaction s))"
proof -
  let ?k = "TryAdvisoryLock DB_INIT_ADVISORY_LOCK_KEY"
  obtain r1 st1 where a: "conn_execute e ?k (begin_transaction s) = (r1, st1)"
    by (cases "conn_execute e ?k (begin_transaction s)")
  from conn_execute_replays [OF statements_ok_begin, of e s ?k] a
  have rp1: "replays e s (r1, st1)" by simp
  show ?thesis
  proof (cases r1)
    case (Inl err)
    with a rp1 show ?thesis by (simp add: transaction_body_def replays_def)
  next
    case (Inr row)
    with rp1 have ok1: "statements_ok e s st1" by (simp add: replays_def)
    have "statements_ok e s (log_event (LogInfo AnotherWorkerInitialized) st1)"
      using ok1 by (rule statements_ok_log)
    with a Inr initialize_replays [OF ok1] show ?thesis
      by (simp add: transaction_body_def replays_def)
  qed
qed

lemma failed_statement_is_the_outcome:
  assumes "replays e s (r, st)"
    and "fst (run_statements e (stmts_of (trace st)) (begin_transaction s)) = Inl err"
  shows "r = Inl err"
proof (cases r)
  case (Inl err')
  with assms show ?thesis
    by (auto simp: replays_def statement_failed_def statements_ok_def)
next
  case (Inr v)
  with assms show ?thesis
    by (auto simp: replays_def statements_ok_def)
qed


lemma stmts_of_after_body:
  "stmts_of (tr @ [DbRollback]) = stmts_of tr"
  "stmts_of (tr @ [DbCommit]) = stmts_of tr"
  "stmts_of (tr @ [DbCommit, LogInfo m]) = stmts_of tr"
  by (simp_all add: stmts_of_append)

text \<open>
  C2, as amended. The statements of a call are the lock attempt, the three
  \<open>CREATE\<close> statements, the upserts and the two statements of the sequence repair.
  \<^item> Whenever \<open>load_txt_files_to_db\<close> raises, the tables of the store (which tables
    exist, their rows, the index) are what they were before the call, and nothing
    was committed.
  \<^item> Whenever one of the statements the call has executed failed, whatever the
    statement and whatever the failure, the call raises that very error, the
    tables are what they were before the call, and the transaction ends by a
    rollback.
  \<^item> Whenever a matching file raises \<open>OSError\<close> on reading and the call gets the
    lock, the call raises, with the same rollback.
  The values of sequences that existed before the call are not part of this:
  PostgreSQL does not roll them back.
\<close>

theorem failure_rolls_back_tables:
  "(fst (load_txt_files_to_db e engine s) = Inl err
      \<longrightarrow> tables_of (fst (snd (load_txt_files_to_db e engine s))) = tables_of s
          \<and> DbCommit \<notin> set (snd (snd (load_txt_files_to_db e engine s))))
   \<and> (fst (run_statements e (stmts_of (snd (snd (load_txt_files_to_db e engine s))))
              (begin_transaction s)) = Inl err2
      \<longrightarrow> fst (load_txt_files_to_db e engine s) = Inl err2
          \<and> tables_of (fst (snd (load_txt_files_to_db e engine s))) = tables_of s
          \<and> DbCommit \<notin> set (snd (snd (load_txt_files_to_db e engine s)))
          \<and> last (snd (snd (load_txt_files_to_db e engine s))) = DbRollback)
   \<and> (engine \<noteq> None \<and> raises_oserror (glob_txt (text_dir e))
        \<and> fst (try_advisory_lock (session_id e) DB_INIT_ADVISORY_LOCK_KEY (advisory_locks s))
      \<longrightarrow> (\<exists>err3. fst (load_txt_files_to_db e engine s) = Inl err3)
          \<and> tables_of (fst (snd (load_txt_files_to_db e engine s))) = tables_of s
          \<and> DbCommit \<notin> set (snd (snd (load_txt_files_to_db e engine s)))
          \<and> last (snd (snd (load_txt_files_to_db e engine s))) = DbRollback)"
proof (cases engine)
  case None
  then show ?thesis by (simp add: load_txt_files_to_db_def)
next
  case (Some a)
  obtain r st where b: "transaction_body e (begin_transaction s) = (r, st)"
    by (cases "transaction_body e (begin_transaction s)")
  have "filter is_transaction_mark (trace st) = [DbBegin]"
    using body_touches_store(2) [OF b] .
  then have "DbCommit \<notin> set (filter is_transaction_mark (trace st))" by simp
  then have nc: "DbCommit \<notin> set (trace st)" by simp
  have rp: "replays e s (r, st)" using transaction_body_replays [of e s] b by simp
  have raised: "tables_of (fst (snd (load_txt_files_to_db e engine s))) = tables_of s
          \<and> DbCommit \<notin> set (snd (snd (load_txt_files_to_db e engine s)))
          \<and> last (snd (snd (load_txt_files_to_db e engine s))) = DbRollback"
    if "r = Inl x" for x
    using that Some b nc by (simp add: load_txt_files_to_db_def tables_of_rollback)
  have one: "fst (load_txt_files_to_db e engine s) = Inl err
      \<longrightarrow> tables_of (fst (snd (load_txt_files_to_db e engine s))) = tables_of s
          \<and> DbCommit \<notin> set (snd (snd (load_txt_files_to_db e engine s)))"
  proof
    assume "fst (load_txt_files_to_db e engine s) = Inl err"
    with Some b have "r = Inl err"
      by (auto simp: load_txt_files_to_db_def split: sum.splits body_exit.splits)
    from raised [OF this] show "tables_of (fst (snd (load_txt_files_to_db e engine s))) = tables_of s
          \<and> DbCommit \<notin> set (snd (snd (load_txt_files_to_db e engine s)))" by simp
  qed
  have two: "fst (run_statements e (stmts_of (snd (snd (load_txt_files_to_db e engine s))))
              (begin_transaction s)) = Inl err2
      \<longrightarrow> fst (load_txt_files_to_db e engine s) = Inl err2
          \<and> tables_of (fst (snd (load_txt_files_to_db e engine s))) = tables_of s
          \<and> DbCommit \<notin> set (snd (snd (load_txt_files_to_db e engine s)))
          \<and> last (snd (snd (load_txt_files_to_db e engine s))) = DbRollback"
  proof
    assume f: "fst (run_statements e (stmts_of (snd (snd (load_txt_files_to_db e engine s))))
              (begin_transaction s)) = Inl err2"
    have "stmts_of (snd (snd (load_txt_files_to_db e engine s))) = stmts_of (trace st)"
      using Some b
      by (simp add: load_txt_files_to_db_def stmts_of_after_body split: sum.splits body_exit.splits)
    with f have "fst (run_statements e (stmts_of (trace st)) (begin_transaction s)) = Inl err2"
      by simp
    from failed_statement_is_the_outcome [OF rp this] have r: "r = Inl err2" .
    with Some b have "fst (load_txt_files_to_db e engine s) = Inl err2"
      by (simp add: load_txt_files_to_db_def)
    with raised [OF r] show "fst (load_txt_files_to_db e engine s) = Inl err2
          \<and> tables_of (fst (snd (load_txt_files_to_db e engine s))) = tables_of s
          \<and> DbCommit \<notin> set (snd (snd (load_txt_files_to_db e engine s)))
          \<and> last (snd (snd (load_txt_files_to_db e engine s))) = DbRollback" by simp
  qed
  have three: "engine \<noteq> None \<and> raises_oserror (glob_txt (text_dir e))
        \<and> fst (try_advisory_lock (session_id e) DB_INIT_ADVISORY_LOCK_KEY (advisory_locks s))
      \<longrightarrow> (\<exists>err3. fst (load_txt_files_to_db e engine s) = Inl err3)
          \<and> tables_of (fst (snd (load_txt_files_to_db e engine s))) = tables_of s
          \<and> DbCommit \<notin> set (snd (snd (load_txt_files_to_db e engine s)))
          \<and> last (snd (snd (load_txt_files_to_db e engine s))) = DbRollback"
  proof
    assume h: "engine \<noteq> None \<and> raises_oserror (glob_txt (text_dir e))
        \<and> fst (try_advisory_lock (session_id e) DB_INIT_ADVISORY_LOCK_KEY (advisory_locks s))"
    then have lk: "fst (try_advisory_lock (session_id e) DB_INIT_ADVISORY_LOCK_KEY
                          (advisory_locks (cur (begin_transaction s))))"
      by (simp add: begin_transaction_def)
    from h transaction_body_fails_on_oserror [OF _ lk] b obtain x where r: "r = Inl x" by auto
    with Some b have "fst (load_txt_files_to_db e engine s) = Inl x"
      by (simp add: load_txt_files_to_db_def)
    with raised [OF r] show "(\<exists>err3. fst (load_txt_files_to_db e engine s) = Inl err3)
          \<and> tables_of (fst (snd (load_txt_files_to_db e engine s))) = tables_of s
          \<and> DbCommit \<notin> set (snd (snd (load_txt_files_to_db e engine s)))
          \<and> last (snd (snd (load_txt_files_to_db e engine s))) = DbRollback" by simp
  qed
  from one two three show ?thesis by blast
qed

theorem failure_rolls_back_tables_witness:
  "fst (load_txt_files_to_db env_upsert_fails (Some some_engine) fresh_store) = Inl DBAPIError
   \<and> fst (run_statements env_upsert_fails
          (stmts_of (snd (snd (load_txt_files_to_db env_upsert_fails (Some some_engine) fresh_store))))
          (begin_transaction fresh_store)) = Inl DBAPIError
   \<and> Some some_engine \<noteq> None
   \<and> raises_oserror (glob_txt (text_dir env_upsert_fails))
   \<and> fst (try_advisory_lock (session_id env_upsert_fails) DB_INIT_ADVISORY_LOCK_KEY
            (advisory_locks fresh_store))
   \<and> stmts_of (snd (snd (load_txt_files_to_db env_upsert_fails (Some some_engine) fresh_store)))
       = [TryAdvisoryLock DB_INIT_ADVISORY_LOCK_KEY, CreateTableDocuments, CreateTableAnalyses,
          CreateIndexAnalyses, UpsertDocument ''a.txt'' ''A'']
   \<and> tables_of (fst (snd (load_txt_files_to_db env_upsert_fails (Some some_engine) fresh_store)))
       = tables_of fresh_store
   \<and> DbCommit \<notin> set (snd (snd (load_txt_files_to_db env_upsert_fails (Some some_engine) fresh_store)))
   \<and> last (snd (snd (load_txt_files_to_db env_upsert_fails (Some some_engine) fresh_store))) = DbRollback"
proof -
  have a: "fst (load_txt_files_to_db env_upsert_fails (Some some_engine) fresh_store) = Inl DBAPIError"
    by (simp add: eval_defs input_defs)
  have q: "stmts_of (snd (snd (load_txt_files_to_db env_upsert_fails (Some some_engine) fresh_store)))
       = [TryAdvisoryLock DB_INIT_ADVISORY_LOCK_KEY, CreateTableDocuments, CreateTableAnalyses,
          CreateIndexAnalyses, UpsertDocument ''a.txt'' ''A'']"
    by (simp add: eval_defs input_defs)
  have b: "fst (run_statements env_upsert_fails
          (stmts_of (snd (snd (load_txt_files_to_db env_upsert_fails (Some some_engine) fresh_store))))
          (begin_transaction fresh_store)) = Inl DBAPIError"
    unfolding q by (simp add: eval_defs input_defs)
  have c: "raises_oserror (glob_txt (text_dir env_upsert_fails))"
    by (simp add: raises_oserror_def eval_defs input_defs)
  have d: "fst (try_advisory_lock (session_id env_upsert_fails) DB_INIT_ADVISORY_LOCK_KEY
            (advisory_locks fresh_store))"
    by (simp add: eval_defs input_defs)
  note t = failure_rolls_back_tables
    [of env_upsert_fails "Some some_engine" fresh_store DBAPIError DBAPIError]
  from a b c d q t [THEN conjunct2, THEN conjunct1] show ?thesis by simp
qed

text \<open>
  C2 as stated fails where the sequence is concerned. On a store that already
  has \<open>documents\<close> (one row, sequence at 1), a directory with a new file
  \<open>b.txt\<close> and an unreadable \<open>c.txt\<close> makes the call raise \<open>OSError\<close> after one
  upsert; the rows are restored, the sequence stays at 2.
\<close>

theorem sequence_advance_survives_rollback:
  "fst (load_txt_files_to_db (env_of dir_b_then_unreadable) (Some some_engine) seeded_store) = Inl OSError
   \<and> documents seeded_store =
       Some \<lparr>doc_rows = [(1, ''a.txt'', ''A'')], doc_id_seq = \<lparr>last_value = 1, is_called = True\<rparr>\<rparr>
   \<and> documents (fst (snd (load_txt_files_to_db (env_of dir_b_then_unreadable) (Some some_engine) seeded_store))) =
       Some \<lparr>doc_rows = [(1, ''a.txt'', ''A'')], doc_id_seq = \<lparr>last_value = 2, is_called = True\<rparr>\<rparr>"
  by (simp add: eval_defs input_defs)

end
